theory Spec2Isabelle
  imports Main "HOL-Library.Multiset"
begin

section \<open>Python values and exceptions\<close>

text \<open>
  The exceptions the modelled code can raise. \<open>InsufficientCatalogError\<close> is the
  error the specification names for a catalog that is too small; no line of the source
  raises it.
\<close>

datatype error = IndexError | KeyError | ValueError | InsufficientCatalogError

text \<open>Sequencing of fallible steps: the first exception ends the computation.\<close>

definition ebind :: "error + 'a \<Rightarrow> ('a \<Rightarrow> error + 'b) \<Rightarrow> error + 'b" where
  "ebind m f = (case m of Inl e \<Rightarrow> Inl e | Inr x \<Rightarrow> f x)"

text \<open>The position an index \<open>i\<close> denotes in a sequence of \<open>len\<close> elements: a
  negative index counts from the end; \<open>None\<close> when it is out of range.\<close>

definition norm_index :: "nat \<Rightarrow> int \<Rightarrow> nat option" where
  "norm_index len i =
     (if 0 \<le> i \<and> i < int len then Some (nat i)
      else if - int len \<le> i \<and> i < 0 then Some (nat (int len + i))
      else None)"

text \<open>\<open>xs[i]\<close>.\<close>

definition index :: "'a list \<Rightarrow> int \<Rightarrow> error + 'a" where
  "index xs i = (case norm_index (length xs) i of None \<Rightarrow> Inl IndexError | Some k \<Rightarrow> Inr (xs ! k))"

text \<open>\<open>xs.pop(i)\<close>: the element at \<open>i\<close> and the list without it.\<close>

definition pop_at :: "'a list \<Rightarrow> int \<Rightarrow> error + ('a \<times> 'a list)" where
  "pop_at xs i =
     (case norm_index (length xs) i of
        None \<Rightarrow> Inl IndexError
      | Some k \<Rightarrow> Inr (xs ! k, take k xs @ drop (Suc k) xs))"

text \<open>\<open>xs.pop()\<close> is \<open>xs.pop(-1)\<close>.\<close>

definition pop :: "'a list \<Rightarrow> error + ('a \<times> 'a list)" where
  "pop xs = pop_at xs (- 1)"

section \<open>Python string operations\<close>

text \<open>
  A Python \<open>str\<close> that the cleaner works on is the list of its code points, which are
  integers from 0 to 0x10FFFF (nothing below depends on the bounds). \<open>ustr\<close> gives the
  code points of an ASCII literal.
\<close>

type_synonym ustring = "int list"

definition ustr :: "string \<Rightarrow> ustring" where
  "ustr s = map of_char s"

text \<open>The whitespace of \<open>str.split()\<close> and \<open>str.strip()\<close>: the code points for which
  \<open>str.isspace()\<close> holds.\<close>

definition is_space :: "int \<Rightarrow> bool" where
  "is_space c =
     ((0x9 \<le> c \<and> c \<le> 0xD) \<or> (0x1C \<le> c \<and> c \<le> 0x20) \<or> c = 0x85 \<or> c = 0xA0
      \<or> c = 0x1680 \<or> (0x2000 \<le> c \<and> c \<le> 0x200A) \<or> c = 0x2028 \<or> c = 0x2029
      \<or> c = 0x202F \<or> c = 0x205F \<or> c = 0x3000)"

text \<open>
  The case mappings. On a string of ASCII characters, \<open>str.lower()\<close> and
  \<open>str.capitalize()\<close> work character by character on the letters \<open>A\<close> to \<open>Z\<close> and \<open>a\<close>
  to \<open>z\<close>. On a string with a character beyond ASCII they follow the Unicode tables
  of the interpreter, which can change the length of the string and depend on the
  neighbours of a character; these tables are no part of the repository and are a
  parameter of the model: \<open>lower_of U s\<close> and \<open>capitalize_of U s\<close> are what \<open>s.lower()\<close>
  and \<open>s.capitalize()\<close> return for such an \<open>s\<close>.
\<close>

record case_maps =
  lower_of :: "ustring \<Rightarrow> ustring"
  capitalize_of :: "ustring \<Rightarrow> ustring"

definition is_ascii :: "ustring \<Rightarrow> bool" where
  "is_ascii s = list_all (\<lambda>c. 0 \<le> c \<and> c < 128) s"

definition lower_char :: "int \<Rightarrow> int" where
  "lower_char c = (if 65 \<le> c \<and> c \<le> 90 then c + 32 else c)"

definition upper_char :: "int \<Rightarrow> int" where
  "upper_char c = (if 97 \<le> c \<and> c \<le> 122 then c - 32 else c)"

definition str_lower :: "case_maps \<Rightarrow> ustring \<Rightarrow> ustring" where
  "str_lower U s = (if is_ascii s then map lower_char s else lower_of U s)"

text \<open>\<open>s.capitalize()\<close>: on ASCII, the first character in upper case and the others in
  lower case.\<close>

definition str_capitalize :: "case_maps \<Rightarrow> ustring \<Rightarrow> ustring" where
  "str_capitalize U s =
     (if is_ascii s
      then (case s of [] \<Rightarrow> [] | c # cs \<Rightarrow> upper_char c # map lower_char cs)
      else capitalize_of U s)"

text \<open>\<open>s.rstrip(chars)\<close> and \<open>s.strip()\<close>.\<close>

definition str_rstrip :: "ustring \<Rightarrow> ustring \<Rightarrow> ustring" where
  "str_rstrip chars s = rev (dropWhile (\<lambda>c. c \<in> set chars) (rev s))"

definition str_strip :: "ustring \<Rightarrow> ustring" where
  "str_strip s = rev (dropWhile is_space (rev (dropWhile is_space s)))"

definition startswith :: "ustring \<Rightarrow> ustring \<Rightarrow> bool" where
  "startswith s p = (take (length p) s = p)"

definition endswith :: "ustring \<Rightarrow> ustring \<Rightarrow> bool" where
  "endswith s p = (length p \<le> length s \<and> drop (length s - length p) s = p)"

text \<open>\<open>s.split(sep)\<close> for a separator that is not empty: the pieces between the
  occurrences of \<open>sep\<close>, found from the left; \<open>cur\<close> is the piece being read, reversed.\<close>

function str_split_aux :: "ustring \<Rightarrow> ustring \<Rightarrow> ustring \<Rightarrow> ustring list" where
  "str_split_aux sep cur [] = [rev cur]"
| "str_split_aux sep cur (c # cs) =
     (if sep \<noteq> [] \<and> take (length sep) (c # cs) = sep
      then rev cur # str_split_aux sep [] (drop (length sep - 1) cs)
      else str_split_aux sep (c # cur) cs)"
  by pat_completeness auto
termination
  by (relation "measure (\<lambda>(sep, cur, s). length s)") auto

definition str_split :: "ustring \<Rightarrow> ustring \<Rightarrow> ustring list" where
  "str_split s sep = str_split_aux sep [] s"

text \<open>\<open>s.split()\<close>: the maximal runs of characters that are not whitespace.\<close>

fun str_split_ws_aux :: "ustring \<Rightarrow> ustring \<Rightarrow> ustring list" where
  "str_split_ws_aux cur [] = (if cur = [] then [] else [rev cur])"
| "str_split_ws_aux cur (c # cs) =
     (if is_space c
      then (if cur = [] then str_split_ws_aux [] cs else rev cur # str_split_ws_aux [] cs)
      else str_split_ws_aux (c # cur) cs)"

definition str_split_ws :: "ustring \<Rightarrow> ustring list" where
  "str_split_ws s = str_split_ws_aux [] s"

text \<open>\<open>sep.join(words)\<close>.\<close>

fun str_join :: "ustring \<Rightarrow> ustring list \<Rightarrow> ustring" where
  "str_join sep [] = []"
| "str_join sep [w] = w"
| "str_join sep (w # ws) = w @ sep @ str_join sep ws"

text \<open>\<open>s.replace(c, '')\<close> for a single character \<open>c\<close>.\<close>

definition str_remove :: "int \<Rightarrow> ustring \<Rightarrow> ustring" where
  "str_remove c s = filter (\<lambda>d. d \<noteq> c) s"

text \<open>\<open>s[1:-1]\<close>.\<close>

definition slice_1_m1 :: "ustring \<Rightarrow> ustring" where
  "slice_1_m1 s = butlast (tl s)"

section \<open>The description cleaner (description\_creator.py)\<close>

definition bad_endings :: "ustring list" where
  "bad_endings = map ustr [''a'', ''an'', ''the'', ''and'', ''or'', ''to'', ''at'', ''on'', ''in'',
                           ''with'', ''for'', ''by'', ''of'']"

definition FALLBACK :: ustring where
  "FALLBACK = ustr ''Mystery game with secrets''"

text \<open>The loop that drops trailing stop words while more than 4 words remain.\<close>

function strip_bad_endings :: "case_maps \<Rightarrow> ustring list \<Rightarrow> error + ustring list" where
  "strip_bad_endings U words =
     (if length words > 4 then
        ebind (index words (- 1)) (\<lambda>w.
          if str_rstrip (ustr '',.!?'') (str_lower U w) \<in> set bad_endings
          then (case pop words of Inl e \<Rightarrow> Inl e | Inr (x, words') \<Rightarrow> strip_bad_endings U words')
          else Inr words)
      else Inr words)"
  by pat_completeness auto
termination
  by (relation "measure (\<lambda>(U, words). length words)")
     (auto simp: pop_def pop_at_def norm_index_def split: if_splits)

text \<open>Lines 42 to 49: the first line, its first sentence, without \<open>*\<close> and
  without a wrapping pair of quotation marks. The code points are those of the line
  feed (0x0A), of \<open>*\<close> (0x2A) and of the double and the single quotation mark (0x22, 0x27);
  0x20 below is the space.\<close>

definition first_sentence_of :: "ustring \<Rightarrow> error + ustring" where
  "first_sentence_of description =
     ebind (index (str_split description [0x0A]) 0) (\<lambda>line.
     ebind (index (str_split line (ustr ''. '')) 0) (\<lambda>first_sentence.
       let first_sentence = str_remove 0x2A first_sentence
       in if (startswith first_sentence [0x22] \<and> endswith first_sentence [0x22]) \<or>
             (startswith first_sentence [0x27] \<and> endswith first_sentence [0x27])
          then Inr (slice_1_m1 first_sentence) else Inr first_sentence))"

text \<open>Lines 52 to 58: the value of \<open>words\<close> when the loop is left.\<close>

definition cleaned_words :: "case_maps \<Rightarrow> ustring \<Rightarrow> error + ustring list" where
  "cleaned_words U description =
     ebind (first_sentence_of description) (\<lambda>first_sentence.
       let words = str_split_ws first_sentence;
           words = take 7 words
       in strip_bad_endings U words)"

definition clean_description :: "case_maps \<Rightarrow> ustring \<Rightarrow> error + ustring" where
  "clean_description U description =
     ebind (cleaned_words U description) (\<lambda>words.
       if length words < 4 then Inr FALLBACK
       else ebind (if words \<noteq> []
                   then ebind (index words 0) (\<lambda>w. Inr (words[0 := str_capitalize U w]))
                   else Inr words) (\<lambda>words.
            Inr (str_strip (str_join [0x20] words))))"

text \<open>Predicates used to state the properties of the cleaner: a word as \<open>split()\<close>
  returns it, the test of the loop on the last word, and the property of
  \<open>str.capitalize()\<close> that it returns a word for a word (the case mapping of a
  character that is not whitespace is not empty and holds no whitespace). On ASCII the
  property is proved below; beyond, it is a property of the tables.\<close>

definition word_ok :: "ustring \<Rightarrow> bool" where
  "word_ok w = (w \<noteq> [] \<and> (\<forall>c\<in>set w. \<not> is_space c))"

definition is_bad_ending :: "case_maps \<Rightarrow> ustring \<Rightarrow> bool" where
  "is_bad_ending U w = (str_rstrip (ustr '',.!?'') (str_lower U w) \<in> set bad_endings)"

definition capitalize_keeps_words :: "case_maps \<Rightarrow> bool" where
  "capitalize_keeps_words U = (\<forall>w. word_ok w \<longrightarrow> word_ok (str_capitalize U w))"

text \<open>\<open>sub in s\<close> for strings.\<close>

fun str_contains :: "ustring \<Rightarrow> ustring \<Rightarrow> bool" where
  "str_contains sub [] = (sub = [])"
| "str_contains sub (c # cs) = (take (length sub) (c # cs) = sub \<or> str_contains sub cs)"

text \<open>Two case tables for the concrete runs below: one that leaves every string with a
  character beyond ASCII as it is, and one that capitalizes as Python does the strings
  that start with U+0149 or U+02BC and go on in ASCII characters (\<open>str.capitalize()\<close>
  turns U+0149 into U+02BC and \<open>N\<close>, and leaves U+02BC as it is).\<close>

definition plain_case :: case_maps where
  "plain_case = \<lparr>lower_of = (\<lambda>s. s), capitalize_of = (\<lambda>s. s)\<rparr>"

definition apostrophe_n_case :: case_maps where
  "apostrophe_n_case =
     \<lparr>lower_of = (\<lambda>s. s),
      capitalize_of = (\<lambda>s. case s of [] \<Rightarrow> []
                            | c # cs \<Rightarrow> if c = 0x149 then [0x2BC, 0x4E] @ map lower_char cs
                                        else c # map lower_char cs)\<rparr>"

section \<open>The batch driver (description\_creator.py)\<close>

text \<open>
  The text-generation service is an oracle: \<open>svc n title\<close> is the content of the answer
  to the \<open>n\<close>-th request of the run, made with the prompt for \<open>title\<close>, or \<open>None\<close>
  when the request (or the access to the content of the answer) raises. The prompt is a
  fixed template around the title. The calls to \<open>time.sleep\<close> and \<open>print\<close> are left out.
  Titles and genres are only compared, used as keys and handed on, so they are of type
  \<^typ>\<open>string\<close>; the answers of the service and the descriptions are lists of code
  points.
\<close>

type_synonym llm = "nat \<Rightarrow> string \<Rightarrow> ustring option"

type_synonym description_table = "string \<rightharpoonup> ustring list"

text \<open>The \<open>try\<close> block: any exception below it gives the fallback phrase.\<close>

definition generate_game_description :: "case_maps \<Rightarrow> llm \<Rightarrow> nat \<Rightarrow> string \<Rightarrow> ustring" where
  "generate_game_description U svc n game_title =
     (case svc n game_title of
        None \<Rightarrow> FALLBACK
      | Some content \<Rightarrow> (case clean_description U content of Inl e \<Rightarrow> FALLBACK | Inr s \<Rightarrow> s))"

definition max_retries :: nat where
  "max_retries = 3"

text \<open>The \<open>while\<close> loop for one game. \<open>log\<close> is the list of the titles requested from
  the service so far in the run, so that its length numbers the next request.\<close>

function description_loop ::
  "case_maps \<Rightarrow> llm \<Rightarrow> string \<Rightarrow> string list \<Rightarrow> nat \<Rightarrow> ustring list
   \<Rightarrow> ustring list \<times> string list" where
  "description_loop U svc game_title log retry_count game_descriptions =
     (if length game_descriptions < 5 then
        let desc = generate_game_description U svc (length log) game_title;
            log = log @ [game_title]
        in if desc = FALLBACK then
             let retry_count = retry_count + 1
             in if retry_count \<ge> max_retries then (game_descriptions, log)
                else description_loop U svc game_title log retry_count game_descriptions
           else description_loop U svc game_title log 0 (game_descriptions @ [desc])
      else (game_descriptions, log))"
  by pat_completeness auto
termination
  by (relation "measure (\<lambda>(U, svc, t, log, r, ds). (5 - length ds) * 4 + (3 - r))")
     (auto simp: max_retries_def)

record catalog_game =
  game :: string
  genre :: string

text \<open>The \<open>for\<close> loop over the catalog; the state is the table (as on disk after each
  game) and the log of requests.\<close>

fun games_loop ::
  "case_maps \<Rightarrow> llm \<Rightarrow> catalog_game list \<Rightarrow> description_table \<times> string list \<Rightarrow> description_table \<times> string list" where
  "games_loop U svc [] (descriptions, log) = (descriptions, log)"
| "games_loop U svc (g # games) (descriptions, log) =
     (let game_title = game g
      in if game_title \<in> dom descriptions then games_loop U svc games (descriptions, log)
         else let (game_descriptions, log) = description_loop U svc game_title log 0 []
              in games_loop U svc games (descriptions(game_title \<mapsto> game_descriptions), log))"

text \<open>\<open>file\<close> is the table read from disk, \<open>None\<close> when the file does not exist.\<close>

definition generate_descriptions_for_all_games ::
  "case_maps \<Rightarrow> llm \<Rightarrow> catalog_game list \<Rightarrow> description_table option \<Rightarrow> description_table \<times> string list" where
  "generate_descriptions_for_all_games U svc games file =
     (let descriptions = (case file of None \<Rightarrow> Map.empty | Some t \<Rightarrow> t)
      in games_loop U svc games (descriptions, []))"

text \<open>The results of the requests numbered from \<open>m\<close> up to \<open>n\<close> for a title, and the
  number of fallback results at the end of a list of results.\<close>

definition results_between :: "case_maps \<Rightarrow> llm \<Rightarrow> string \<Rightarrow> nat \<Rightarrow> nat \<Rightarrow> ustring list" where
  "results_between U svc game_title m n = map (\<lambda>k. generate_game_description U svc k game_title) [m..<n]"

definition trailing_fallbacks :: "ustring list \<Rightarrow> nat" where
  "trailing_fallbacks results = length (takeWhile (\<lambda>d. d = FALLBACK) (rev results))"

text \<open>
  The run of the loop for one game over \<open>m\<close> requests, numbered from \<open>n\<close>, entered with
  \<open>r\<close> fallback results in a row and the descriptions \<open>ds\<close>: it is left with 5
  descriptions or after 3 fallback results in a row, it is not left before, and it makes a
  request when it is entered with fewer than 5 descriptions.
\<close>

definition loop_run ::
  "case_maps \<Rightarrow> llm \<Rightarrow> string \<Rightarrow> nat \<Rightarrow> nat \<Rightarrow> ustring list \<Rightarrow> nat \<Rightarrow> bool" where
  "loop_run U svc t n r ds m =
     (let res = results_between U svc t n (n + m)
      in (5 \<le> length ds + length (filter (\<lambda>d. d \<noteq> FALLBACK) res)
            \<or> trailing_fallbacks (replicate r FALLBACK @ res) = 3)
       \<and> (\<forall>k<m. trailing_fallbacks (replicate r FALLBACK @ take k res) < 3
                 \<and> length ds + length (filter (\<lambda>d. d \<noteq> FALLBACK) (take k res)) < 5)
       \<and> (length ds < 5 \<longrightarrow> 0 < m))"

text \<open>Example services and an example table, for the concrete runs below.\<close>

definition example_service :: llm where
  "example_service n t =
     (if n = 0 then Some (ustr ''one two three four'')
      else if 4 \<le> n \<and> n < 9 then Some (ustr ''x y z w v'')
      else None)"

definition fallback_service :: llm where
  "fallback_service n t = (if n < 2 then Some (ustr ''two lines chasing one ball'') else Some FALLBACK)"

definition partial_table :: description_table where
  "partial_table = [''A'' \<mapsto> [ustr ''Two lines chasing one ball'']]"

section \<open>The question generator (app.py)\<close>

text \<open>
  The source of randomness is a sequence of draws, given by a finite list followed by
  zeros; \<open>randbelow n\<close> reduces a draw modulo \<open>n\<close>. Every outcome of the random module
  is the outcome for some list of draws.
\<close>

type_synonym rand = "nat list"

definition next_draw :: "rand \<Rightarrow> nat \<times> rand" where
  "next_draw rs = (case rs of [] \<Rightarrow> (0, []) | r # rs' \<Rightarrow> (r, rs'))"

definition randbelow :: "nat \<Rightarrow> rand \<Rightarrow> nat \<times> rand" where
  "randbelow n rs = (let (r, rs') = next_draw rs in (r mod n, rs'))"

text \<open>\<open>random.randint(a, b)\<close> raises \<open>ValueError\<close> on an empty range.\<close>

definition randint :: "int \<Rightarrow> int \<Rightarrow> rand \<Rightarrow> error + (int \<times> rand)" where
  "randint a b rs =
     (if b < a then Inl ValueError
      else let (r, rs') = randbelow (nat (b - a + 1)) rs in Inr (a + int r, rs'))"

text \<open>\<open>random.choice(seq)\<close> raises \<open>IndexError\<close> on an empty sequence.\<close>

definition choice :: "'a list \<Rightarrow> rand \<Rightarrow> error + ('a \<times> rand)" where
  "choice seq rs =
     (if seq = [] then Inl IndexError
      else let (r, rs') = randbelow (length seq) rs in Inr (seq ! r, rs'))"

text \<open>\<open>random.shuffle(x)\<close>: for \<open>i\<close> from \<open>len(x) - 1\<close> down to 1, exchange \<open>x[i]\<close> and
  \<open>x[j]\<close> for a random \<open>j \<le> i\<close>.\<close>

fun shuffle_steps :: "nat \<Rightarrow> 'a list \<Rightarrow> rand \<Rightarrow> 'a list \<times> rand" where
  "shuffle_steps 0 x rs = (x, rs)"
| "shuffle_steps (Suc k) x rs =
     (let i = Suc k; (j, rs') = randbelow (i + 1) rs
      in shuffle_steps k (x[i := x ! j, j := x ! i]) rs')"

definition shuffle :: "'a list \<Rightarrow> rand \<Rightarrow> 'a list \<times> rand" where
  "shuffle x rs = shuffle_steps (length x - 1) x rs"

record question =
  description :: ustring
  correct_answer :: string
  choices :: "string list"

text \<open>Lines 46 to 53: the title of a game of the same genre, or of another genre when
  the pool has none of the same.\<close>

definition same_genre_pick :: "catalog_game list \<Rightarrow> string \<Rightarrow> rand \<Rightarrow> error + (string \<times> rand)" where
  "same_genre_pick available_games game_genre rs =
     (let same_genre_games = filter (\<lambda>g. genre g = game_genre) available_games
      in if same_genre_games \<noteq> []
         then ebind (choice same_genre_games rs) (\<lambda>(g, rs). Inr (game g, rs))
         else let diff_genre_games = filter (\<lambda>g. genre g \<noteq> game_genre) available_games
              in ebind (choice diff_genre_games rs) (\<lambda>(g, rs). Inr (game g, rs)))"

text \<open>Lines 56 to 63: the titles of two games of other genres, popped from a fresh list
  of the games of other genres in the pool.\<close>

definition diff_genre_picks ::
  "catalog_game list \<Rightarrow> string \<Rightarrow> rand \<Rightarrow> error + (string list \<times> rand)" where
  "diff_genre_picks available_games game_genre rs =
     (let diff_genre_games = filter (\<lambda>g. genre g \<noteq> game_genre) available_games
      in ebind (randint 0 (int (length diff_genre_games) - 1) rs) (\<lambda>(idx1, rs).
         ebind (pop_at diff_genre_games idx1) (\<lambda>(first_choice, diff_genre_games).
         ebind (randint 0 (int (length diff_genre_games) - 1) rs) (\<lambda>(idx2, rs).
         ebind (pop_at diff_genre_games idx2) (\<lambda>(second_choice, diff_genre_games).
           Inr ([game first_choice, game second_choice], rs))))))"

text \<open>The body of the \<open>for\<close> loop of \<open>create_questions\<close>: one question, the pool
  without its game, and the rest of the draws.\<close>

definition question_round ::
  "description_table \<Rightarrow> catalog_game list \<Rightarrow> rand
   \<Rightarrow> error + (question \<times> catalog_game list \<times> rand)" where
  "question_round descriptions available_games rs =
     ebind (randint 0 (int (length available_games) - 1) rs) (\<lambda>(idx, rs).
     ebind (pop_at available_games idx) (\<lambda>(random_game, available_games).
       let game_title = game random_game;
           game_genre = genre random_game
       in
     ebind (same_genre_pick available_games game_genre rs) (\<lambda>(same_genre_choice, rs).
     ebind (diff_genre_picks available_games game_genre rs) (\<lambda>(diff_genre_choices, rs).
     ebind (case descriptions game_title of None \<Rightarrow> Inl KeyError | Some ds \<Rightarrow> Inr ds) (\<lambda>ds.
     ebind (choice ds rs) (\<lambda>(description, rs).
       let all_choices = [game_title, same_genre_choice] @ diff_genre_choices;
           (all_choices, rs) = shuffle all_choices rs
       in Inr (\<lparr>description = description, correct_answer = game_title,
                 choices = all_choices\<rparr>, available_games, rs)))))))"

fun question_loop ::
  "nat \<Rightarrow> description_table \<Rightarrow> catalog_game list \<Rightarrow> question list \<Rightarrow> rand
   \<Rightarrow> error + question list" where
  "question_loop 0 descriptions available_games questions rs = Inr questions"
| "question_loop (Suc n) descriptions available_games questions rs =
     ebind (question_round descriptions available_games rs) (\<lambda>(q, available_games, rs).
       question_loop n descriptions available_games (questions @ [q]) rs)"

definition create_questions ::
  "description_table \<Rightarrow> catalog_game list \<Rightarrow> rand \<Rightarrow> error + question list" where
  "create_questions descriptions games rs = question_loop 5 descriptions games [] rs"

text \<open>The different-genre games left in the pool once the game at \<open>idx\<close> is taken
  out of it.\<close>

definition diff_genre_pool :: "catalog_game list \<Rightarrow> nat \<Rightarrow> catalog_game list" where
  "diff_genre_pool available_games idx =
     filter (\<lambda>g. genre g \<noteq> genre (available_games ! idx))
       (take idx available_games @ drop (Suc idx) available_games)"

text \<open>The round once the game \<open>g\<close> has been taken out of the pool (lines 42 to
  76); \<open>question_round\<close> is this after its two first steps.\<close>

definition round_tail ::
  "description_table \<Rightarrow> catalog_game \<Rightarrow> catalog_game list \<Rightarrow> rand
   \<Rightarrow> error + (question \<times> catalog_game list \<times> rand)" where
  "round_tail d g pool rs =
     ebind (same_genre_pick pool (genre g) rs) (\<lambda>(same_genre_choice, rs).
     ebind (diff_genre_picks pool (genre g) rs) (\<lambda>(diff_genre_choices, rs).
     ebind (case d (game g) of None \<Rightarrow> Inl KeyError | Some ds \<Rightarrow> Inr ds) (\<lambda>ds.
     ebind (choice ds rs) (\<lambda>(description, rs).
       let all_choices = [game g, same_genre_choice] @ diff_genre_choices;
           (all_choices, rs) = shuffle all_choices rs
       in Inr (\<lparr>description = description, correct_answer = game g,
                 choices = all_choices\<rparr>, pool, rs)))))"

text \<open>Example catalogs and an example table, for the concrete runs below.\<close>

definition catalog3 :: "catalog_game list" where
  "catalog3 = [\<lparr>game = ''A'', genre = ''g1''\<rparr>, \<lparr>game = ''B'', genre = ''g1''\<rparr>,
               \<lparr>game = ''C'', genre = ''g2''\<rparr>]"

definition catalog7 :: "catalog_game list" where
  "catalog7 = [\<lparr>game = ''A'', genre = ''g1''\<rparr>, \<lparr>game = ''B'', genre = ''g2''\<rparr>,
               \<lparr>game = ''C'', genre = ''g2''\<rparr>, \<lparr>game = ''D'', genre = ''g3''\<rparr>,
               \<lparr>game = ''E'', genre = ''g3''\<rparr>, \<lparr>game = ''F'', genre = ''g4''\<rparr>,
               \<lparr>game = ''G'', genre = ''g4''\<rparr>, \<lparr>game = ''H'', genre = ''g5''\<rparr>]"

definition one_description :: description_table where
  "one_description = (\<lambda>t. Some [ustr ''d''])"

section \<open>The answer handler (app.py)\<close>

text \<open>The session is a dictionary with up to three keys.\<close>

record session =
  CURRENT_QUESTION_IDX :: "int option"
  SCORE :: "int option"
  QUESTIONS :: "question list option"

datatype button = NextButton | SeeResultsButton

record feedback =
  heading :: string
  message :: string
  next_button :: button

definition session_get :: "'a option \<Rightarrow> 'a \<Rightarrow> 'a" where
  "session_get v d = (case v of None \<Rightarrow> d | Some x \<Rightarrow> x)"

definition post :: "session \<Rightarrow> int \<Rightarrow> error + (session \<times> feedback)" where
  "post session choice_idx =
     (let q_idx = session_get (CURRENT_QUESTION_IDX session) 0
      in ebind (case QUESTIONS session of None \<Rightarrow> Inl KeyError | Some qs \<Rightarrow> Inr qs) (\<lambda>qs.
         ebind (index qs q_idx) (\<lambda>q.
         ebind (index (choices q) choice_idx) (\<lambda>chosen_answer.
           let is_correct = (chosen_answer = correct_answer q);
               session = (if is_correct
                          then session\<lparr>SCORE := Some (session_get (SCORE session) 0 + 1)\<rparr>
                          else session);
               heading = (if is_correct then ''Correct!'' else ''Incorrect!'');
               message = (if is_correct
                          then [CHR 0x27] @ correct_answer q @ [CHR 0x27] @ '' is the right answer!''
                          else ''The correct answer is '' @ [CHR 0x27] @ correct_answer q @ [CHR 0x27] @ ''.'')
           in if q_idx + 1 < int (length qs)
              then Inr (session\<lparr>CURRENT_QUESTION_IDX := Some (q_idx + 1)\<rparr>,
                        \<lparr>heading = heading, message = message, next_button = NextButton\<rparr>)
              else Inr (session\<lparr>CURRENT_QUESTION_IDX := Some (q_idx + 1)\<rparr>,
                        \<lparr>heading = heading, message = message, next_button = SeeResultsButton\<rparr>)))))"

text \<open>An example session, on its only question.\<close>

definition example_session :: session where
  "example_session =
     \<lparr>CURRENT_QUESTION_IDX = Some 0, SCORE = Some 0,
      QUESTIONS = Some [\<lparr>description = ustr ''d'', correct_answer = ''A'',
                         choices = [''B'', ''C'', ''D'', ''A'']\<rparr>]\<rparr>"

section \<open>Properties of the description cleaner\<close>

declare strip_bad_endings.simps [simp del]
declare str_split_aux.simps [simp del]

lemma index_0: "xs \<noteq> [] \<Longrightarrow> index xs 0 = Inr (hd xs)"
  by (cases xs) (simp_all add: index_def norm_index_def)

lemma index_last: "xs \<noteq> [] \<Longrightarrow> index xs (- 1) = Inr (last xs)"
  by (cases xs) (simp_all add: index_def norm_index_def last_conv_nth nat_diff_distrib')

lemma pop_last: "xs \<noteq> [] \<Longrightarrow> pop xs = Inr (last xs, butlast xs)"
  by (cases xs)
     (simp_all add: pop_def pop_at_def norm_index_def last_conv_nth butlast_conv_take nat_diff_distrib')

lemma str_split_aux_nonempty: "str_split_aux sep cur s \<noteq> []"
  by (induction sep cur s rule: str_split_aux.induct) (simp_all add: str_split_aux.simps)

lemma str_split_nonempty: "str_split s sep \<noteq> []"
  by (simp add: str_split_def str_split_aux_nonempty)

lemma strip_bad_endings_step:
  "strip_bad_endings U words =
     (if length words > 4 \<and> is_bad_ending U (last words)
      then strip_bad_endings U (butlast words) else Inr words)"
proof (cases "length words > 4")
  case True
  then have ne: "words \<noteq> []" by auto
  show ?thesis
    by (subst strip_bad_endings.simps)
       (simp add: True index_last [OF ne] pop_last [OF ne] ebind_def is_bad_ending_def)
next
  case False
  then show ?thesis by (subst strip_bad_endings.simps) simp
qed

lemma strip_bad_endings_total:
  "\<exists>ws. strip_bad_endings U words = Inr ws \<and> length ws \<le> length words
        \<and> min 4 (length words) \<le> length ws \<and> ws = take (length ws) words
        \<and> strip_bad_endings U ws = Inr ws
        \<and> \<not> (length ws > 4 \<and> is_bad_ending U (last ws))"
proof (induction "length words" arbitrary: words rule: less_induct)
  case less
  show ?case
  proof (cases "length words > 4 \<and> is_bad_ending U (last words)")
    case True
    then have "length (butlast words) < length words" by auto
    from less [OF this] obtain ws where
      ws: "strip_bad_endings U (butlast words) = Inr ws" "length ws \<le> length (butlast words)"
        "min 4 (length (butlast words)) \<le> length ws" "ws = take (length ws) (butlast words)"
        "strip_bad_endings U ws = Inr ws" "\<not> (length ws > 4 \<and> is_bad_ending U (last ws))"
      by blast
    have "strip_bad_endings U words = Inr ws"
      using True ws(1) by (subst strip_bad_endings_step) simp
    moreover have "ws = take (length ws) words"
      using ws(2,4) by (metis butlast_conv_take min.absorb_iff1 take_take length_butlast)
    ultimately show ?thesis using ws True by auto
  next
    case False
    then have "strip_bad_endings U words = Inr words"
      by (subst strip_bad_endings_step) auto
    then show ?thesis using False by auto
  qed
qed

lemma split_ws_aux_ok:
  "w \<in> set (str_split_ws_aux cur s) \<Longrightarrow> \<forall>c\<in>set cur. \<not> is_space c \<Longrightarrow> word_ok w"
proof (induction s arbitrary: cur)
  case Nil
  then show ?case by (auto simp: word_ok_def split: if_splits)
next
  case (Cons a s)
  show ?case
  proof (cases "is_space a")
    case True
    with Cons.prems have "w = rev cur \<and> cur \<noteq> [] \<or> w \<in> set (str_split_ws_aux [] s)"
      by (auto split: if_splits)
    then show ?thesis using Cons.IH [of "[]"] Cons.prems(2) by (auto simp: word_ok_def)
  next
    case False
    with Cons.prems have "w \<in> set (str_split_ws_aux (a # cur) s)" by simp
    then show ?thesis using Cons.IH [of "a # cur"] Cons.prems(2) False by simp
  qed
qed

lemma split_ws_ok: "w \<in> set (str_split_ws s) \<Longrightarrow> word_ok w"
  using split_ws_aux_ok [of w "[]" s] by (simp add: str_split_ws_def)

lemma dropWhile_hd: "xs \<noteq> [] \<Longrightarrow> \<not> P (hd xs) \<Longrightarrow> dropWhile P xs = xs"
  by (cases xs) simp_all

lemma split_ws_aux_word:
  "\<forall>c\<in>set w. \<not> is_space c \<Longrightarrow> str_split_ws_aux cur (w @ rest) = str_split_ws_aux (rev w @ cur) rest"
  by (induction w arbitrary: cur) auto

lemma space_is_space: "is_space 0x20"
  by (simp add: is_space_def)

lemma split_ws_join:
  "\<forall>w\<in>set ws. word_ok w \<Longrightarrow> str_split_ws (str_join [0x20] ws) = ws"
proof (induction "[0x20::int]" ws rule: str_join.induct)
  case 1
  then show ?case by (simp add: str_split_ws_def)
next
  case (2 w)
  then have "str_split_ws_aux [] (w @ []) = [w]"
    by (subst split_ws_aux_word) (auto simp: word_ok_def)
  then show ?case by (simp add: str_split_ws_def)
next
  case (3 w v va)
  then have ok: "\<forall>c\<in>set w. \<not> is_space c" "w \<noteq> []"
    and rest: "str_split_ws (str_join [0x20] (v # va)) = v # va"
    by (auto simp: word_ok_def)
  have "str_split_ws_aux [] (w @ 0x20 # str_join [0x20] (v # va))
        = w # str_split_ws_aux [] (str_join [0x20] (v # va))"
    using ok by (subst split_ws_aux_word) (auto simp: space_is_space)
  then show ?case using rest by (simp add: str_split_ws_def)
qed

lemma join_ends:
  "ws \<noteq> [] \<Longrightarrow> \<forall>w\<in>set ws. word_ok w \<Longrightarrow>
   str_join [0x20] ws \<noteq> [] \<and> \<not> is_space (hd (str_join [0x20] ws))
   \<and> \<not> is_space (last (str_join [0x20] ws))"
  by (induction "[0x20::int]" ws rule: str_join.induct) (auto simp: word_ok_def)

lemma strip_join:
  assumes "\<forall>w\<in>set ws. word_ok w"
  shows "str_strip (str_join [0x20] ws) = str_join [0x20] ws"
proof (cases "ws = []")
  case True
  then show ?thesis by (simp add: str_strip_def)
next
  case False
  from join_ends [OF False assms] have ne: "str_join [0x20] ws \<noteq> []"
    and h: "\<not> is_space (hd (str_join [0x20] ws))"
    and l: "\<not> is_space (last (str_join [0x20] ws))"
    by simp_all
  have "dropWhile is_space (rev (str_join [0x20] ws)) = rev (str_join [0x20] ws)"
    using l ne by (intro dropWhile_hd) (simp_all add: hd_rev)
  moreover have "dropWhile is_space (str_join [0x20] ws) = str_join [0x20] ws"
    using h ne by (intro dropWhile_hd)
  ultimately show ?thesis by (simp add: str_strip_def)
qed

lemma upper_char_not_space: "\<not> is_space c \<Longrightarrow> \<not> is_space (upper_char c)"
  by (auto simp: is_space_def upper_char_def)

lemma lower_char_not_space: "\<not> is_space c \<Longrightarrow> \<not> is_space (lower_char c)"
  by (auto simp: is_space_def lower_char_def)

lemma capitalize_ok:
  assumes "capitalize_keeps_words U" "word_ok w"
  shows "word_ok (str_capitalize U w)"
  using assms by (simp add: capitalize_keeps_words_def)

lemma ascii_capitalize_ok:
  assumes "is_ascii w" "word_ok w"
  shows "word_ok (str_capitalize U w)"
  using assms
  by (cases w) (auto simp: word_ok_def str_capitalize_def upper_char_not_space lower_char_not_space)

lemma capitalize_keeps_wordsI:
  assumes "\<And>w. \<not> is_ascii w \<Longrightarrow> word_ok w \<Longrightarrow> word_ok (capitalize_of U w)"
  shows "capitalize_keeps_words U"
proof -
  have "word_ok (str_capitalize U w)" if "word_ok w" for w
  proof (cases "is_ascii w")
    case True
    then show ?thesis using that by (rule ascii_capitalize_ok)
  next
    case False
    then show ?thesis using assms [OF False that] by (simp add: str_capitalize_def)
  qed
  then show ?thesis by (simp add: capitalize_keeps_words_def)
qed

lemma first_sentence_total: "\<exists>fs. first_sentence_of d = Inr fs"
  by (simp add: first_sentence_of_def ebind_def index_0 str_split_nonempty Let_def)

lemma cleaned_words_props:
  "\<exists>ws. cleaned_words U d = Inr ws \<and> length ws \<le> 7 \<and> (\<forall>w\<in>set ws. word_ok w)
        \<and> \<not> (length ws > 4 \<and> is_bad_ending U (last ws))"
proof -
  obtain fs where fs: "first_sentence_of d = Inr fs"
    using first_sentence_total by blast
  let ?ws0 = "take 7 (str_split_ws fs)"
  obtain ws where ws: "strip_bad_endings U ?ws0 = Inr ws" "length ws \<le> length ?ws0"
    "ws = take (length ws) ?ws0" "\<not> (length ws > 4 \<and> is_bad_ending U (last ws))"
    using strip_bad_endings_total [of U ?ws0] by blast
  have "set ws \<subseteq> set (str_split_ws fs)"
    using ws(3) by (metis set_take_subset subset_trans)
  then have "\<forall>w\<in>set ws. word_ok w"
    using split_ws_ok by blast
  moreover have "length ws \<le> 7" using ws(2) by simp
  moreover have "cleaned_words U d = Inr ws"
    using fs ws(1) by (simp add: cleaned_words_def ebind_def Let_def)
  ultimately show ?thesis using ws(4) by blast
qed

lemma cleaned_words_few:
  assumes "first_sentence_of d = Inr fs" "length (str_split_ws fs) \<le> 4"
  shows "cleaned_words U d = Inr (str_split_ws fs)"
proof -
  have "strip_bad_endings U (str_split_ws fs) = Inr (str_split_ws fs)"
    using assms(2) by (subst strip_bad_endings_step) simp
  then show ?thesis using assms by (simp add: cleaned_words_def ebind_def Let_def)
qed

lemma clean_description_eq:
  assumes "cleaned_words U d = Inr ws"
  shows "clean_description U d =
         Inr (if length ws < 4 then FALLBACK
              else str_strip (str_join [0x20] (str_capitalize U (hd ws) # tl ws)))"
proof (cases "length ws < 4")
  case True
  then show ?thesis using assms by (simp add: clean_description_def ebind_def)
next
  case False
  then obtain w ws' where "ws = w # ws'" by (cases ws) auto
  then show ?thesis using assms False
    by (simp add: clean_description_def ebind_def index_def norm_index_def)
qed

lemma clean_description_few:
  assumes "first_sentence_of d = Inr fs" "length (str_split_ws fs) < 4"
  shows "clean_description U d = Inr FALLBACK"
  using cleaned_words_few [OF assms(1), of U] assms(2) by (simp add: clean_description_eq)

text \<open>
  Claim C7. \<open>clean_description\<close> is total on strings: for every input it returns a
  string and raises no exception, also for the empty string, a lone quotation mark and a
  string without whitespace. This holds whatever the case mappings are.
\<close>

theorem clean_description_total:
  "(\<exists>s. clean_description U raw_text = Inr s)
   \<and> clean_description U [] = Inr FALLBACK
   \<and> clean_description U [0x22] = Inr FALLBACK
   \<and> clean_description U (ustr ''nowhitespaceatall'') = Inr FALLBACK"
proof -
  obtain ws where "cleaned_words U raw_text = Inr ws"
    using cleaned_words_props by blast
  then have "\<exists>s. clean_description U raw_text = Inr s"
    by (simp add: clean_description_eq)
  moreover have "clean_description U [] = Inr FALLBACK"
  proof (rule clean_description_few)
    show "first_sentence_of [] = Inr []" by code_simp
    show "length (str_split_ws []) < 4" by code_simp
  qed
  moreover have "clean_description U [0x22] = Inr FALLBACK"
  proof (rule clean_description_few)
    show "first_sentence_of [0x22] = Inr []" by code_simp
    show "length (str_split_ws []) < 4" by code_simp
  qed
  moreover have "clean_description U (ustr ''nowhitespaceatall'') = Inr FALLBACK"
  proof (rule clean_description_few)
    show "first_sentence_of (ustr ''nowhitespaceatall'') = Inr (ustr ''nowhitespaceatall'')"
      by code_simp
    show "length (str_split_ws (ustr ''nowhitespaceatall'')) < 4" by code_simp
  qed
  ultimately show ?thesis by blast
qed

text \<open>
  Claim C4. For every input, \<open>clean_description\<close> returns the fallback phrase or a
  string of 4 to 7 whitespace-delimited words; and when fewer than 4 words are left after
  the loop (as for the input \<open>Wow\<close>), the result is the fallback phrase. The words are
  those of \<open>str.split()\<close> with the whitespace of Unicode. The count rests on one property
  of \<open>str.capitalize()\<close> beyond ASCII, that it returns a word for a word.
\<close>

theorem clean_description_word_count:
  "(capitalize_keeps_words U \<longrightarrow>
      (\<exists>s. clean_description U raw = Inr s \<and>
        (s = FALLBACK \<or> (4 \<le> length (str_split_ws s) \<and> length (str_split_ws s) \<le> 7))))
   \<and> (\<forall>ws. cleaned_words U raw = Inr ws \<longrightarrow> length ws < 4 \<longrightarrow> clean_description U raw = Inr FALLBACK)
   \<and> clean_description U (ustr ''Wow'') = Inr FALLBACK"
proof -
  obtain ws where ws: "cleaned_words U raw = Inr ws" "length ws \<le> 7" "\<forall>w\<in>set ws. word_ok w"
    using cleaned_words_props by blast
  have "\<exists>s. clean_description U raw = Inr s \<and>
        (s = FALLBACK \<or> (4 \<le> length (str_split_ws s) \<and> length (str_split_ws s) \<le> 7))"
    if cap: "capitalize_keeps_words U"
  proof (cases "length ws < 4")
    case True
    then show ?thesis using ws(1) by (simp add: clean_description_eq)
  next
    case False
    then obtain w ws' where c: "ws = w # ws'" by (cases ws) auto
    let ?out = "str_capitalize U w # ws'"
    have ok: "\<forall>v\<in>set ?out. word_ok v"
      using ws(3) c cap by (simp add: capitalize_ok)
    have "clean_description U raw = Inr (str_join [0x20] ?out)"
      using ws(1) False c strip_join [OF ok] by (simp add: clean_description_eq)
    moreover have "str_split_ws (str_join [0x20] ?out) = ?out"
      using ok by (rule split_ws_join)
    ultimately show ?thesis using False ws(2) c by simp
  qed
  moreover have "\<forall>ws. cleaned_words U raw = Inr ws \<longrightarrow> length ws < 4 \<longrightarrow> clean_description U raw = Inr FALLBACK"
    by (simp add: clean_description_eq)
  moreover have "clean_description U (ustr ''Wow'') = Inr FALLBACK"
  proof (rule clean_description_few)
    show "first_sentence_of (ustr ''Wow'') = Inr (ustr ''Wow'')" by code_simp
    show "length (str_split_ws (ustr ''Wow'')) < 4" by code_simp
  qed
  ultimately show ?thesis by blast
qed

lemma plain_case_keeps_words: "capitalize_keeps_words plain_case"
  by (rule capitalize_keeps_wordsI) (simp add: plain_case_def)

lemma apostrophe_n_case_keeps_words: "capitalize_keeps_words apostrophe_n_case"
proof (rule capitalize_keeps_wordsI)
  fix w :: ustring
  assume w: "word_ok w"
  have sp: "\<not> is_space 0x2BC" "\<not> is_space 0x4E" by (simp_all add: is_space_def)
  show "word_ok (capitalize_of apostrophe_n_case w)"
  proof (cases w)
    case Nil
    then show ?thesis using w by (simp add: word_ok_def)
  next
    case (Cons c cs)
    then show ?thesis using w sp
      by (auto simp: word_ok_def apostrophe_n_case_def lower_char_not_space)
  qed
qed

theorem clean_description_word_count_witness:
  "capitalize_keeps_words apostrophe_n_case
   \<and> clean_description apostrophe_n_case ([0x149, 0x61, 0xA0] @ ustr ''b c'' @ [0x2003] @ ustr ''d'')
       = Inr ([0x2BC, 0x4E] @ ustr ''a b c d'')
   \<and> length (str_split_ws ([0x2BC, 0x4E] @ ustr ''a b c d'')) = 4
   \<and> cleaned_words apostrophe_n_case (ustr ''Wow'') = Inr [ustr ''Wow'']
   \<and> length [ustr ''Wow''] < 4
   \<and> clean_description apostrophe_n_case (ustr ''Wow'') = Inr FALLBACK"
proof -
  have h1: "clean_description apostrophe_n_case ([0x149, 0x61, 0xA0] @ ustr ''b c'' @ [0x2003] @ ustr ''d'')
       = Inr ([0x2BC, 0x4E] @ ustr ''a b c d'')"
    by code_simp
  have h2: "length (str_split_ws ([0x2BC, 0x4E] @ ustr ''a b c d'')) = 4" by code_simp
  have h3: "cleaned_words apostrophe_n_case (ustr ''Wow'') = Inr [ustr ''Wow'']" by code_simp
  show ?thesis
    using apostrophe_n_case_keeps_words h1 h2 h3
      clean_description_word_count [of apostrophe_n_case "ustr ''Wow''"]
      clean_description_word_count
        [of apostrophe_n_case "[0x149, 0x61, 0xA0] @ ustr ''b c'' @ [0x2003] @ ustr ''d''"]
    by simp
qed

lemma str_contains_single: "str_contains [c] s = (c \<in> set s)"
  by (induction s) auto

lemma split_aux_no_sep: "\<not> str_contains sep s \<Longrightarrow> str_split_aux sep cur s = [rev cur @ s]"
  by (induction s arbitrary: cur) (auto simp: str_split_aux.simps)

lemma split_no_sep: "\<not> str_contains sep s \<Longrightarrow> index (str_split s sep) 0 = Inr s"
  by (simp add: str_split_def split_aux_no_sep index_def norm_index_def)

lemma set_join: "set (str_join [0x20] ws) \<subseteq> insert 0x20 (\<Union>w\<in>set ws. set w)"
  by (induction "[0x20::int]" ws rule: str_join.induct) auto

lemma join_no_newline:
  assumes "\<forall>w\<in>set ws. word_ok w"
  shows "0x0A \<notin> set (str_join [0x20] ws)"
proof
  assume "0x0A \<in> set (str_join [0x20] ws)"
  then obtain w where "w \<in> set ws" "0x0A \<in> set w"
    using set_join [of ws] by auto
  moreover have "is_space 0x0A" by (simp add: is_space_def)
  ultimately show False using assms by (auto simp: word_ok_def)
qed

lemma no_quote_wrap:
  "c \<notin> set s \<Longrightarrow> \<not> startswith s [c]"
  by (cases s) (auto simp: startswith_def)

lemma first_sentence_fixed:
  assumes "0x0A \<notin> set y" "\<not> str_contains (ustr ''. '') y" "0x2A \<notin> set y"
    "0x22 \<notin> set y" "0x27 \<notin> set y"
  shows "first_sentence_of y = Inr y"
proof -
  have "index (str_split y [0x0A]) 0 = Inr y"
    using assms(1) by (simp add: split_no_sep str_contains_single)
  moreover have "index (str_split y (ustr ''. '')) 0 = Inr y"
    using assms(2) by (rule split_no_sep)
  moreover have "str_remove 0x2A y = y"
    using assms(3) by (auto simp: str_remove_def filter_id_conv)
  ultimately show ?thesis
    using no_quote_wrap [OF assms(4)] no_quote_wrap [OF assms(5)]
    by (simp add: first_sentence_of_def ebind_def)
qed

lemma fallback_fixed: "clean_description U FALLBACK = Inr FALLBACK"
proof -
  have "cleaned_words U FALLBACK = Inr (str_split_ws FALLBACK)"
  proof (rule cleaned_words_few)
    show "first_sentence_of FALLBACK = Inr FALLBACK" by code_simp
    show "length (str_split_ws FALLBACK) \<le> 4" by code_simp
  qed
  moreover have "length (str_split_ws FALLBACK) = 4" by code_simp
  moreover have "is_ascii (hd (str_split_ws FALLBACK))" by code_simp
  moreover have "str_strip (str_join [0x20]
      ((case hd (str_split_ws FALLBACK) of [] \<Rightarrow> [] | c # cs \<Rightarrow> upper_char c # map lower_char cs)
       # tl (str_split_ws FALLBACK))) = FALLBACK"
    by code_simp
  ultimately show ?thesis
    by (simp add: clean_description_eq str_capitalize_def)
qed

lemma clean_description_idem_strong:
  assumes cap: "capitalize_keeps_words U"
    and x: "clean_description U x = Inr y"
    and star: "0x2A \<notin> set y" and dq: "0x22 \<notin> set y" and sq: "0x27 \<notin> set y"
    and dot: "\<not> str_contains (ustr ''. '') y"
    and fixed: "str_capitalize U (hd (str_split_ws y)) = hd (str_split_ws y)"
  shows "clean_description U y = Inr y"
proof -
  obtain ws where ws: "cleaned_words U x = Inr ws" "length ws \<le> 7" "\<forall>w\<in>set ws. word_ok w"
    "\<not> (length ws > 4 \<and> is_bad_ending U (last ws))"
    using cleaned_words_props by blast
  show ?thesis
  proof (cases "length ws < 4")
    case True
    then have "y = FALLBACK" using x ws(1) by (simp add: clean_description_eq)
    then show ?thesis by (simp add: fallback_fixed)
  next
    case False
    then obtain w ws' where c: "ws = w # ws'" by (cases ws) auto
    with False have ne: "ws' \<noteq> []" by auto
    let ?out = "str_capitalize U w # ws'"
    have ok: "\<forall>v\<in>set ?out. word_ok v"
      using ws(3) c cap by (simp add: capitalize_ok)
    have y: "y = str_join [0x20] ?out"
      using x ws(1) False c strip_join [OF ok] by (simp add: clean_description_eq)
    have sp: "str_split_ws y = ?out"
      using split_ws_join [OF ok] by (simp add: y)
    have twice: "str_capitalize U (str_capitalize U w) = str_capitalize U w"
      using fixed by (simp add: sp)
    have "first_sentence_of y = Inr y"
      using join_no_newline [OF ok] dot star dq sq unfolding y by (intro first_sentence_fixed)
    moreover have "take 7 (str_split_ws y) = ?out"
      using sp ws(2) c by simp
    moreover have "strip_bad_endings U ?out = Inr ?out"
      using ws(4) c ne by (subst strip_bad_endings_step) auto
    ultimately have "cleaned_words U y = Inr ?out"
      by (simp add: cleaned_words_def ebind_def)
    then have "clean_description U y = Inr (str_strip (str_join [0x20] ?out))"
      using False c by (simp add: clean_description_eq twice)
    then show ?thesis using strip_join [OF ok] y by simp
  qed
qed

text \<open>
  Claim C6, as stated, fails: the output for \<open>Run.\<close>, a tab, \<open>fast jump high\<close> has no
  stop-word ending, no quotation mark and no \<open>*\<close>, yet cleaning it again cuts it at the
  period followed by a space and gives the fallback phrase. The strings are ASCII, where
  the case tables play no part.
\<close>

theorem clean_description_not_idempotent:
  "clean_description plain_case (ustr ''Run.'' @ [0x09] @ ustr ''fast jump high'')
     = Inr (ustr ''Run. fast jump high'')
   \<and> \<not> is_bad_ending plain_case (last (str_split_ws (ustr ''Run. fast jump high'')))
   \<and> 0x22 \<notin> set (ustr ''Run. fast jump high'') \<and> 0x27 \<notin> set (ustr ''Run. fast jump high'')
   \<and> 0x2A \<notin> set (ustr ''Run. fast jump high'')
   \<and> clean_description plain_case (ustr ''Run. fast jump high'') = Inr FALLBACK
   \<and> clean_description plain_case (ustr ''Run. fast jump high'') \<noteq> Inr (ustr ''Run. fast jump high'')"
  by code_simp

text \<open>
  A second way in which cleaning twice differs from cleaning once: \<open>str.capitalize()\<close> is
  not idempotent. It turns U+0149 into U+02BC and \<open>N\<close>, and on the next application the
  \<open>N\<close>, no longer the first character, into \<open>n\<close>. The output below has no stop-word ending,
  no quotation mark, no \<open>*\<close> and no period followed by a space.
\<close>

lemma clean_description_capitalize_twice:
  "clean_description apostrophe_n_case ([0x149] @ ustr ''a b c d'')
     = Inr ([0x2BC, 0x4E] @ ustr ''a b c d'')
   \<and> \<not> str_contains (ustr ''. '') ([0x2BC, 0x4E] @ ustr ''a b c d'')
   \<and> clean_description apostrophe_n_case ([0x2BC, 0x4E] @ ustr ''a b c d'')
     = Inr ([0x2BC, 0x6E] @ ustr ''a b c d'')"
  by code_simp

text \<open>
  Claim C6, amended. \<open>clean_description\<close> is idempotent on every input whose cleaned
  output has no stop-word ending, no quotation mark, no \<open>*\<close>, no period followed by a
  space, and a first word that \<open>str.capitalize()\<close> leaves as it is. As for C4,
  \<open>str.capitalize()\<close> is taken to return a word for a word.
\<close>

theorem clean_description_idempotent:
  assumes "capitalize_keeps_words U"
    and "clean_description U x = Inr y"
    and "\<not> is_bad_ending U (last (str_split_ws y))"
    and "0x22 \<notin> set y" and "0x27 \<notin> set y" and "0x2A \<notin> set y"
    and "\<not> str_contains (ustr ''. '') y"
    and "str_capitalize U (hd (str_split_ws y)) = hd (str_split_ws y)"
  shows "clean_description U y = Inr y"
  using assms(1,2,4-8) by (intro clean_description_idem_strong [of U x])

theorem clean_description_idempotent_witness:
  "capitalize_keeps_words apostrophe_n_case
   \<and> clean_description apostrophe_n_case ([0x2BC] @ ustr ''pong two lines chasing one ball and'')
       = Inr ([0x2BC] @ ustr ''pong two lines chasing one ball'')
   \<and> \<not> is_bad_ending apostrophe_n_case
         (last (str_split_ws ([0x2BC] @ ustr ''pong two lines chasing one ball'')))
   \<and> 0x22 \<notin> set ([0x2BC] @ ustr ''pong two lines chasing one ball'')
   \<and> 0x27 \<notin> set ([0x2BC] @ ustr ''pong two lines chasing one ball'')
   \<and> 0x2A \<notin> set ([0x2BC] @ ustr ''pong two lines chasing one ball'')
   \<and> \<not> str_contains (ustr ''. '') ([0x2BC] @ ustr ''pong two lines chasing one ball'')
   \<and> str_capitalize apostrophe_n_case
         (hd (str_split_ws ([0x2BC] @ ustr ''pong two lines chasing one ball'')))
       = hd (str_split_ws ([0x2BC] @ ustr ''pong two lines chasing one ball''))
   \<and> clean_description apostrophe_n_case ([0x2BC] @ ustr ''pong two lines chasing one ball'')
       = Inr ([0x2BC] @ ustr ''pong two lines chasing one ball'')"
proof -
  let ?y = "[0x2BC] @ ustr ''pong two lines chasing one ball''"
  have h1: "clean_description apostrophe_n_case ([0x2BC] @ ustr ''pong two lines chasing one ball and'')
       = Inr ?y"
    by code_simp
  have h2: "\<not> is_bad_ending apostrophe_n_case (last (str_split_ws ?y))" by code_simp
  have h3: "0x22 \<notin> set ?y" by code_simp
  have h4: "0x27 \<notin> set ?y" by code_simp
  have h5: "0x2A \<notin> set ?y" by code_simp
  have h6: "\<not> str_contains (ustr ''. '') ?y" by code_simp
  have h7: "str_capitalize apostrophe_n_case (hd (str_split_ws ?y)) = hd (str_split_ws ?y)"
    by code_simp
  show ?thesis
    using h1 h2 h3 h4 h5 h6 h7
      clean_description_idempotent [OF apostrophe_n_case_keeps_words h1 h2 h3 h4 h5 h6 h7]
      apostrophe_n_case_keeps_words
    by simp
qed

section \<open>Properties of the batch driver\<close>

declare description_loop.simps [simp del]

lemma loop_done:
  "\<not> length ds < 5 \<Longrightarrow> description_loop U svc t log r ds = (ds, log)"
  by (subst description_loop.simps) simp

lemma loop_give_up:
  "length ds < 5 \<Longrightarrow> generate_game_description U svc (length log) t = FALLBACK \<Longrightarrow> 3 \<le> r + 1
   \<Longrightarrow> description_loop U svc t log r ds = (ds, log @ [t])"
  by (subst description_loop.simps) (simp add: Let_def max_retries_def)

lemma loop_retry:
  "length ds < 5 \<Longrightarrow> generate_game_description U svc (length log) t = FALLBACK \<Longrightarrow> r + 1 < 3
   \<Longrightarrow> description_loop U svc t log r ds = description_loop U svc t (log @ [t]) (r + 1) ds"
  by (subst description_loop.simps) (simp add: Let_def max_retries_def)

lemma loop_success:
  "length ds < 5 \<Longrightarrow> generate_game_description U svc (length log) t \<noteq> FALLBACK
   \<Longrightarrow> description_loop U svc t log r ds
       = description_loop U svc t (log @ [t]) 0 (ds @ [generate_game_description U svc (length log) t])"
  by (subst description_loop.simps) (simp add: Let_def)

lemma results_between_Suc:
  "results_between U svc t n (n + Suc m)
     = generate_game_description U svc n t # results_between U svc t (Suc n) (Suc n + m)"
proof -
  have "[n..<n + Suc m] = n # [Suc n..<Suc n + m]"
    by (subst upt_rec) simp
  then show ?thesis by (simp only: results_between_def list.map)
qed

lemma results_between_length: "length (results_between U svc t n (n + m)) = m"
  by (simp add: results_between_def)

lemma trailing_replicate: "trailing_fallbacks (replicate r FALLBACK) = r"
  by (simp add: trailing_fallbacks_def)

lemma trailing_after_success:
  "trailing_fallbacks (pre @ d # xs) = trailing_fallbacks xs" if "d \<noteq> FALLBACK"
proof -
  let ?P = "\<lambda>d. d = FALLBACK"
  have r: "rev (pre @ d # xs) = rev xs @ d # rev pre" by simp
  have "length (takeWhile ?P (rev xs @ d # rev pre)) = length (takeWhile ?P (rev xs))"
  proof (cases "\<forall>x\<in>set (rev xs). x = FALLBACK")
    case True
    then have a: "takeWhile ?P (rev xs @ d # rev pre) = rev xs @ takeWhile ?P (d # rev pre)"
      by (intro takeWhile_append2) simp
    have b: "takeWhile ?P (rev xs) = rev xs"
      using True by simp
    show ?thesis by (simp only: a b) (simp add: that)
  next
    case False
    then obtain x where "x \<in> set (rev xs)" "\<not> ?P x" by blast
    then have "takeWhile ?P (rev xs @ d # rev pre) = takeWhile ?P (rev xs)"
      by (rule takeWhile_append1)
    then show ?thesis by (simp only:)
  qed
  then show ?thesis by (simp only: trailing_fallbacks_def r)
qed

lemma description_loop_run:
  assumes "r < 3"
  shows "\<exists>m. description_loop U svc t log r ds
             = (ds @ filter (\<lambda>d. d \<noteq> FALLBACK) (results_between U svc t (length log) (length log + m)),
                log @ replicate m t)
           \<and> loop_run U svc t (length log) r ds m"
  using assms
proof (induction "(5 - length ds) * 4 + (3 - r)" arbitrary: log r ds rule: less_induct)
  case less
  let ?d = "generate_game_description U svc (length log) t"
  show ?case
  proof (cases "length ds < 5")
    case False
    then have "description_loop U svc t log r ds = (ds, log)" by (rule loop_done)
    moreover have "loop_run U svc t (length log) r ds 0"
      using False by (simp add: loop_run_def results_between_def)
    ultimately show ?thesis
      by (intro exI [of _ 0]) (simp add: results_between_def)
  next
    case True
    show ?thesis
    proof (cases "?d = FALLBACK")
      case fb: True
      show ?thesis
      proof (cases "3 \<le> r + 1")
        case True
        then have r2: "r = 2" using less.prems by simp
        have res: "results_between U svc t (length log) (Suc (length log)) = [FALLBACK]"
          using fb results_between_Suc [of U svc t "length log" 0] by (simp add: results_between_def)
        have "description_loop U svc t log r ds = (ds, log @ [t])"
          using \<open>length ds < 5\<close> fb True by (rule loop_give_up)
        moreover have "loop_run U svc t (length log) r ds 1"
          using \<open>length ds < 5\<close> r2 trailing_replicate [of 3] trailing_replicate [of 2]
          by (simp add: loop_run_def Let_def res numeral_3_eq_3 numeral_2_eq_2)
        ultimately show ?thesis
          by (intro exI [of _ 1]) (simp add: res)
      next
        case False
        then have lt: "r + 1 < 3" by simp
        have step: "description_loop U svc t log r ds = description_loop U svc t (log @ [t]) (r + 1) ds"
          using \<open>length ds < 5\<close> fb lt by (rule loop_retry)
        have "(5 - length ds) * 4 + (3 - (r + 1)) < (5 - length ds) * 4 + (3 - r)"
          using lt by simp
        from less.hyps [OF this lt, of "log @ [t]"] obtain m where
          m: "description_loop U svc t (log @ [t]) (r + 1) ds
               = (ds @ filter (\<lambda>d. d \<noteq> FALLBACK) (results_between U svc t (Suc (length log)) (Suc (length log) + m)),
                  (log @ [t]) @ replicate m t)"
            "loop_run U svc t (Suc (length log)) (r + 1) ds m"
          by auto
        have res: "results_between U svc t (length log) (length log + Suc m)
                   = FALLBACK # results_between U svc t (Suc (length log)) (Suc (length log) + m)"
          using fb by (simp only: results_between_Suc)
        have "loop_run U svc t (length log) r ds (Suc m)"
          unfolding loop_run_def Let_def res
        proof (intro conjI allI impI)
          show "5 \<le> length ds + length (filter (\<lambda>d. d \<noteq> FALLBACK) (FALLBACK # results_between U svc t (Suc (length log)) (Suc (length log) + m)))
                \<or> trailing_fallbacks (replicate r FALLBACK @ FALLBACK # results_between U svc t (Suc (length log)) (Suc (length log) + m)) = 3"
            using m(2) by (simp add: loop_run_def Let_def replicate_app_Cons_same)
        next
          fix k assume k: "k < Suc m"
          show "trailing_fallbacks (replicate r FALLBACK @ take k (FALLBACK # results_between U svc t (Suc (length log)) (Suc (length log) + m))) < 3"
          proof (cases k)
            case 0
            then show ?thesis using less.prems by (simp add: trailing_replicate)
          next
            case (Suc k')
            then show ?thesis using m(2) k
              by (simp add: loop_run_def Let_def replicate_app_Cons_same)
          qed
          show "length ds + length (filter (\<lambda>d. d \<noteq> FALLBACK) (take k (FALLBACK # results_between U svc t (Suc (length log)) (Suc (length log) + m)))) < 5"
          proof (cases k)
            case 0
            then show ?thesis using \<open>length ds < 5\<close> by simp
          next
            case (Suc k')
            then show ?thesis using m(2) k by (simp add: loop_run_def Let_def)
          qed
        next
          show "0 < Suc m" by simp
        qed
        moreover have "description_loop U svc t log r ds
             = (ds @ filter (\<lambda>d. d \<noteq> FALLBACK) (results_between U svc t (length log) (length log + Suc m)),
                log @ replicate (Suc m) t)"
          using step m(1) res by simp
        ultimately show ?thesis by blast
      qed
    next
      case ok: False
      have step: "description_loop U svc t log r ds = description_loop U svc t (log @ [t]) 0 (ds @ [?d])"
        using \<open>length ds < 5\<close> ok by (rule loop_success)
      have "(5 - length (ds @ [?d])) * 4 + (3 - 0) < (5 - length ds) * 4 + (3 - r)"
        using \<open>length ds < 5\<close> by simp
      from less.hyps [OF this, of "log @ [t]"] obtain m where
        m: "description_loop U svc t (log @ [t]) 0 (ds @ [?d])
             = ((ds @ [?d]) @ filter (\<lambda>d. d \<noteq> FALLBACK) (results_between U svc t (Suc (length log)) (Suc (length log) + m)),
                (log @ [t]) @ replicate m t)"
          "loop_run U svc t (Suc (length log)) 0 (ds @ [?d]) m"
        by auto
      have res: "results_between U svc t (length log) (length log + Suc m)
                 = ?d # results_between U svc t (Suc (length log)) (Suc (length log) + m)"
        by (simp only: results_between_Suc)
      let ?rest = "results_between U svc t (Suc (length log)) (Suc (length log) + m)"
      have "loop_run U svc t (length log) r ds (Suc m)"
        unfolding loop_run_def Let_def res
      proof (intro conjI allI impI)
        show "5 \<le> length ds + length (filter (\<lambda>d. d \<noteq> FALLBACK) (?d # ?rest))
              \<or> trailing_fallbacks (replicate r FALLBACK @ ?d # ?rest) = 3"
          using m(2) ok by (simp add: loop_run_def Let_def trailing_after_success)
      next
        fix k assume k: "k < Suc m"
        show "trailing_fallbacks (replicate r FALLBACK @ take k (?d # ?rest)) < 3"
        proof (cases k)
          case 0
          then show ?thesis using less.prems by (simp add: trailing_replicate)
        next
          case (Suc k')
          then show ?thesis using m(2) k ok
            by (simp add: loop_run_def Let_def trailing_after_success)
        qed
        show "length ds + length (filter (\<lambda>d. d \<noteq> FALLBACK) (take k (?d # ?rest))) < 5"
        proof (cases k)
          case 0
          then show ?thesis using \<open>length ds < 5\<close> by simp
        next
          case (Suc k')
          then show ?thesis using m(2) k ok by (simp add: loop_run_def Let_def)
        qed
      next
        show "0 < Suc m" by simp
      qed
      moreover have "description_loop U svc t log r ds
           = (ds @ filter (\<lambda>d. d \<noteq> FALLBACK) (results_between U svc t (length log) (length log + Suc m)),
              log @ replicate (Suc m) t)"
        using ok step m(1) res by simp
      ultimately show ?thesis by blast
    qed
  qed
qed

lemma description_loop_result:
  "\<exists>m. description_loop U svc t log 0 []
         = (filter (\<lambda>d. d \<noteq> FALLBACK) (results_between U svc t (length log) (length log + m)),
            log @ replicate m t)
       \<and> loop_run U svc t (length log) 0 [] m \<and> 0 < m"
proof -
  from description_loop_run [of 0 U svc t log "[]"] obtain m where
    m: "description_loop U svc t log 0 []
         = ([] @ filter (\<lambda>d. d \<noteq> FALLBACK) (results_between U svc t (length log) (length log + m)),
            log @ replicate m t)" "loop_run U svc t (length log) 0 [] m"
    by auto
  from m(2) have "0 < m" by (simp add: loop_run_def Let_def)
  with m show ?thesis by auto
qed

lemma loop_run_end:
  assumes "loop_run U svc t n 0 [] m" "0 < m"
  shows "length (filter (\<lambda>d. d \<noteq> FALLBACK) (results_between U svc t n (n + m))) \<le> 5
       \<and> (length (filter (\<lambda>d. d \<noteq> FALLBACK) (results_between U svc t n (n + m))) < 5
            \<longleftrightarrow> trailing_fallbacks (results_between U svc t n (n + m)) = 3)"
proof -
  obtain k where k: "m = Suc k" using assms(2) by (cases m) auto
  define res where "res = results_between U svc t n (n + Suc k)"
  have len: "length res = Suc k" by (simp add: res_def results_between_def)
  then have split: "res = take k res @ [res ! k]"
    using take_Suc_conv_app_nth [of k res] by simp
  note run = assms(1) [unfolded k loop_run_def Let_def res_def [symmetric]]
  from run have stop: "5 \<le> length (filter (\<lambda>d. d \<noteq> FALLBACK) res) \<or> trailing_fallbacks res = 3"
    by simp
  from run have cont: "length (filter (\<lambda>d. d \<noteq> FALLBACK) (take k res)) < 5"
    by simp
  show ?thesis
  proof (cases "res ! k = FALLBACK")
    case True
    then have "filter (\<lambda>d. d \<noteq> FALLBACK) res = filter (\<lambda>d. d \<noteq> FALLBACK) (take k res)"
      by (subst split) simp
    then show ?thesis using stop cont unfolding k res_def [symmetric] by auto
  next
    case False
    then have f: "length (filter (\<lambda>d. d \<noteq> FALLBACK) res)
                  = Suc (length (filter (\<lambda>d. d \<noteq> FALLBACK) (take k res)))"
      by (subst split) simp
    have "trailing_fallbacks (take k res @ res ! k # []) = trailing_fallbacks []"
      using False by (rule trailing_after_success)
    then have "trailing_fallbacks res = 0"
      using split by (simp add: trailing_fallbacks_def)
    then show ?thesis using stop cont f unfolding k res_def [symmetric] by auto
  qed
qed

lemma games_loop_Cons:
  "games_loop U svc (g # games) (table, log) =
     (if game g \<in> dom table then games_loop U svc games (table, log)
      else games_loop U svc games
             (table(game g \<mapsto> fst (description_loop U svc (game g) log 0 [])),
              snd (description_loop U svc (game g) log 0 [])))"
  by (simp add: Let_def case_prod_beta)

lemma games_loop_dom:
  "dom (fst (games_loop U svc games (table, log))) = dom table \<union> game ` set games"
proof (induction games arbitrary: table log)
  case Nil
  then show ?case by simp
next
  case (Cons g games)
  show ?case
    by (simp only: games_loop_Cons Cons.IH split: if_split) auto
qed

lemma games_loop_keeps:
  "t \<in> dom table \<Longrightarrow> fst (games_loop U svc games (table, log)) t = table t"
proof (induction games arbitrary: table log)
  case Nil
  then show ?case by simp
next
  case (Cons g games)
  show ?case
  proof (cases "game g \<in> dom table")
    case True
    then show ?thesis using Cons by (simp only: games_loop_Cons if_True)
  next
    case False
    let ?tb = "table(game g \<mapsto> fst (description_loop U svc (game g) log 0 []))"
    have "t \<in> dom ?tb" using Cons.prems by simp
    from Cons.IH [OF this] have "fst (games_loop U svc (g # games) (table, log)) t = ?tb t"
      using False by (simp only: games_loop_Cons if_False)
    moreover have "t \<noteq> game g" using False Cons.prems by auto
    ultimately show ?thesis by simp
  qed
qed

lemma games_loop_log:
  "set (snd (games_loop U svc games (table, log))) = set log \<union> (game ` set games - dom table)"
proof (induction games arbitrary: table log)
  case Nil
  then show ?case by simp
next
  case (Cons g games)
  show ?case
  proof (cases "game g \<in> dom table")
    case True
    then show ?thesis by (simp only: games_loop_Cons if_True Cons.IH) auto
  next
    case False
    obtain m where m: "snd (description_loop U svc (game g) log 0 []) = log @ replicate m (game g)" "0 < m"
      using description_loop_result [of U svc "game g" log] by auto
    then have "set (snd (description_loop U svc (game g) log 0 [])) = set log \<union> {game g}"
      by auto
    then show ?thesis using False by (simp only: games_loop_Cons if_False Cons.IH) auto
  qed
qed

lemma games_loop_new_entry:
  assumes "t \<notin> dom table" "fst (games_loop U svc games (table, log)) t = Some ds"
  shows "\<exists>log'. ds = fst (description_loop U svc t log' 0 [])"
  using assms
proof (induction games arbitrary: table log)
  case Nil
  then show ?case by auto
next
  case (Cons g games)
  show ?case
  proof (cases "game g \<in> dom table")
    case True
    then show ?thesis using Cons by (simp only: games_loop_Cons if_True)
  next
    case False
    let ?tb = "table(game g \<mapsto> fst (description_loop U svc (game g) log 0 []))"
    let ?lg = "snd (description_loop U svc (game g) log 0 [])"
    have r: "fst (games_loop U svc games (?tb, ?lg)) t = Some ds"
      using Cons.prems(2) False by (simp only: games_loop_Cons if_False)
    show ?thesis
    proof (cases "t = game g")
      case True
      then have "t \<in> dom ?tb" by simp
      from games_loop_keeps [OF this, of U svc games ?lg] r True
      have "ds = fst (description_loop U svc t log 0 [])" by simp
      then show ?thesis by blast
    next
      case False
      then have "t \<notin> dom ?tb" using Cons.prems(1) by simp
      from Cons.IH [OF this r] show ?thesis .
    qed
  qed
qed

lemma description_loop_no_fallback: "FALLBACK \<notin> set (fst (description_loop U svc t log 0 []))"
  using description_loop_result [of U svc t log] by auto

text \<open>
  Claim C3, as stated, fails: on a restart with a table in which \<open>A\<close> holds one description,
  \<open>A\<close> lacks 5 stored descriptions and yet no request is made for it.
\<close>

theorem restart_skips_short_entry:
  "partial_table ''A'' = Some [ustr ''Two lines chasing one ball'']
   \<and> length [ustr ''Two lines chasing one ball''] < 5
   \<and> ''A'' \<in> game ` set catalog3
   \<and> snd (generate_descriptions_for_all_games plain_case example_service catalog3 (Some partial_table))
       = [''B'', ''B'', ''B'', ''B'', ''C'', ''C'', ''C'', ''C'', ''C'']
   \<and> ''A'' \<notin> set (snd (generate_descriptions_for_all_games plain_case example_service catalog3 (Some partial_table)))"
  by code_simp

text \<open>
  Claim C3, amended. On a restart with a partially populated table, the driver requests
  descriptions exactly for the catalog games whose title is not a key of the table: a title
  in the table, holding 5 entries or fewer, is never requested again, and a catalog title
  that is absent from the table is processed.
\<close>

theorem requests_for_missing_titles:
  "set (snd (generate_descriptions_for_all_games U svc games file))
     = game ` set games - dom (case file of None \<Rightarrow> Map.empty | Some table \<Rightarrow> table)
   \<and> (\<forall>table ds. file = Some table \<longrightarrow> table t = Some ds \<longrightarrow> length ds = 5 \<longrightarrow>
          t \<notin> set (snd (generate_descriptions_for_all_games U svc games file)))
   \<and> (t \<in> game ` set games \<longrightarrow> t \<notin> dom (case file of None \<Rightarrow> Map.empty | Some table \<Rightarrow> table) \<longrightarrow>
          t \<in> set (snd (generate_descriptions_for_all_games U svc games file)))"
proof -
  have eq: "set (snd (generate_descriptions_for_all_games U svc games file))
     = game ` set games - dom (case file of None \<Rightarrow> Map.empty | Some table \<Rightarrow> table)"
    by (simp add: generate_descriptions_for_all_games_def games_loop_log)
  show ?thesis
    by (simp only: eq) auto
qed

theorem requests_for_missing_titles_witness:
  "partial_table ''A'' = Some [ustr ''Two lines chasing one ball'']
   \<and> ''B'' \<in> game ` set catalog3 \<and> ''B'' \<notin> dom partial_table
   \<and> set (snd (generate_descriptions_for_all_games plain_case example_service catalog3 (Some partial_table)))
       = game ` set catalog3 - dom partial_table
   \<and> ''B'' \<in> set (snd (generate_descriptions_for_all_games plain_case example_service catalog3 (Some partial_table)))"
proof -
  have h1: "partial_table ''A'' = Some [ustr ''Two lines chasing one ball'']"
    by (simp add: partial_table_def)
  have h2: "''B'' \<in> game ` set catalog3" by (simp add: catalog3_def)
  have h3: "''B'' \<notin> dom partial_table" by (simp add: partial_table_def)
  show ?thesis
    using h1 h2 h3
      requests_for_missing_titles [of plain_case example_service catalog3 "Some partial_table" "''B''"]
    by simp
qed

text \<open>
  Claim C8. For each game the loop makes requests until it holds 5 descriptions or has
  seen 3 fallback results in a row, and not longer: it stops with fewer than 5
  descriptions exactly when its last 3 results are fallbacks, no earlier point of the run
  has 3 fallbacks in a row (a success in between starts the count again), and what it
  returns are the results that are not the fallback. The batch stores that list for the game
  and goes on: every catalog title has an entry in the end.
\<close>

theorem description_loop_gives_up:
  "(\<exists>m. description_loop U svc game_title log 0 []
           = (filter (\<lambda>d. d \<noteq> FALLBACK)
                (results_between U svc game_title (length log) (length log + m)),
              log @ replicate m game_title)
        \<and> length (filter (\<lambda>d. d \<noteq> FALLBACK)
             (results_between U svc game_title (length log) (length log + m))) \<le> 5
        \<and> (length (filter (\<lambda>d. d \<noteq> FALLBACK)
              (results_between U svc game_title (length log) (length log + m))) < 5
             \<longleftrightarrow> trailing_fallbacks (results_between U svc game_title (length log) (length log + m)) = 3)
        \<and> (\<forall>k<m. trailing_fallbacks
                     (take k (results_between U svc game_title (length log) (length log + m))) < 3
                 \<and> length (filter (\<lambda>d. d \<noteq> FALLBACK)
                     (take k (results_between U svc game_title (length log) (length log + m)))) < 5))
   \<and> (game g \<notin> dom table \<longrightarrow>
        fst (games_loop U svc (g # games) (table, log)) (game g)
          = Some (fst (description_loop U svc (game g) log 0 [])))
   \<and> dom (fst (games_loop U svc games (table, log))) = dom table \<union> game ` set games"
proof (intro conjI impI)
  obtain m where m: "description_loop U svc game_title log 0 []
         = (filter (\<lambda>d. d \<noteq> FALLBACK) (results_between U svc game_title (length log) (length log + m)),
            log @ replicate m game_title)"
    "loop_run U svc game_title (length log) 0 [] m" "0 < m"
    using description_loop_result by blast
  have "\<forall>k<m. trailing_fallbacks
                     (take k (results_between U svc game_title (length log) (length log + m))) < 3
                 \<and> length (filter (\<lambda>d. d \<noteq> FALLBACK)
                     (take k (results_between U svc game_title (length log) (length log + m)))) < 5"
    using m(2) by (simp add: loop_run_def Let_def)
  with m(1) loop_run_end [OF m(2,3)]
  show "\<exists>m. description_loop U svc game_title log 0 []
           = (filter (\<lambda>d. d \<noteq> FALLBACK)
                (results_between U svc game_title (length log) (length log + m)),
              log @ replicate m game_title)
        \<and> length (filter (\<lambda>d. d \<noteq> FALLBACK)
             (results_between U svc game_title (length log) (length log + m))) \<le> 5
        \<and> (length (filter (\<lambda>d. d \<noteq> FALLBACK)
              (results_between U svc game_title (length log) (length log + m))) < 5
             \<longleftrightarrow> trailing_fallbacks (results_between U svc game_title (length log) (length log + m)) = 3)
        \<and> (\<forall>k<m. trailing_fallbacks
                     (take k (results_between U svc game_title (length log) (length log + m))) < 3
                 \<and> length (filter (\<lambda>d. d \<noteq> FALLBACK)
                     (take k (results_between U svc game_title (length log) (length log + m)))) < 5)"
    by blast
next
  assume new: "game g \<notin> dom table"
  let ?tb = "table(game g \<mapsto> fst (description_loop U svc (game g) log 0 []))"
  have "game g \<in> dom ?tb" by simp
  from games_loop_keeps [OF this, of U svc games "snd (description_loop U svc (game g) log 0 [])"]
  show "fst (games_loop U svc (g # games) (table, log)) (game g)
          = Some (fst (description_loop U svc (game g) log 0 []))"
    using new by (simp only: games_loop_Cons if_False) simp
next
  show "dom (fst (games_loop U svc games (table, log))) = dom table \<union> game ` set games"
    by (rule games_loop_dom)
qed

theorem description_loop_gives_up_witness:
  "description_loop plain_case example_service ''A'' [] 0 []
     = ([ustr ''One two three four''], [''A'', ''A'', ''A'', ''A''])
   \<and> results_between plain_case example_service ''A'' 0 4
       = [ustr ''One two three four'', FALLBACK, FALLBACK, FALLBACK]
   \<and> trailing_fallbacks (results_between plain_case example_service ''A'' 0 4) = 3
   \<and> game (hd catalog3) \<notin> dom (Map.empty :: description_table)
   \<and> fst (games_loop plain_case example_service catalog3 (Map.empty, [])) ''A'' = Some [ustr ''One two three four'']
   \<and> fst (games_loop plain_case example_service catalog3 (Map.empty, [])) ''B''
       = Some [ustr ''X y z w v'', ustr ''X y z w v'', ustr ''X y z w v'', ustr ''X y z w v'', ustr ''X y z w v'']
   \<and> fst (games_loop plain_case example_service catalog3 (Map.empty, [])) ''C'' = Some []"
proof -
  have h1: "description_loop plain_case example_service ''A'' [] 0 []
     = ([ustr ''One two three four''], [''A'', ''A'', ''A'', ''A''])" by code_simp
  have h2: "results_between plain_case example_service ''A'' 0 4
       = [ustr ''One two three four'', FALLBACK, FALLBACK, FALLBACK]" by code_simp
  have h3: "trailing_fallbacks (results_between plain_case example_service ''A'' 0 4) = 3" by code_simp
  have h4: "fst (games_loop plain_case example_service catalog3 (Map.empty, [])) ''A'' = Some [ustr ''One two three four'']"
    by code_simp
  have h5: "fst (games_loop plain_case example_service catalog3 (Map.empty, [])) ''B''
       = Some [ustr ''X y z w v'', ustr ''X y z w v'', ustr ''X y z w v'', ustr ''X y z w v'', ustr ''X y z w v'']"
    by code_simp
  have h6: "fst (games_loop plain_case example_service catalog3 (Map.empty, [])) ''C'' = Some []"
    by code_simp
  show ?thesis
    using h1 h2 h3 h4 h5 h6
      description_loop_gives_up [where U = plain_case and svc = example_service and game_title = "''A''" and log = "[]"
        and g = "hd catalog3" and table = Map.empty and games = "tl catalog3"]
    by simp
qed

text \<open>
  Claim C9. Every description the driver stores for a game it processes differs from the
  fallback phrase, and the entries it found on disk are written back as they were; an
  answer of the service that is the fallback phrase itself is taken as a failure like any
  other.
\<close>

theorem stored_descriptions_not_fallback:
  assumes "fst (generate_descriptions_for_all_games U svc games file) t = Some ds"
    and "\<forall>ds0. (case file of None \<Rightarrow> Map.empty | Some table \<Rightarrow> table) t = Some ds0
               \<longrightarrow> FALLBACK \<notin> set ds0"
  shows "FALLBACK \<notin> set ds
       \<and> (\<forall>n. svc n t = Some FALLBACK \<longrightarrow> generate_game_description U svc n t = FALLBACK)"
proof -
  let ?init = "case file of None \<Rightarrow> Map.empty | Some table \<Rightarrow> table"
  have run: "fst (games_loop U svc games (?init, [])) t = Some ds"
    using assms(1) by (simp add: generate_descriptions_for_all_games_def)
  have "FALLBACK \<notin> set ds"
  proof (cases "t \<in> dom ?init")
    case True
    from games_loop_keeps [OF True, of U svc games "[]"] run have "?init t = Some ds" by simp
    then show ?thesis using assms(2) by blast
  next
    case False
    from games_loop_new_entry [OF False run]
    obtain log' where "ds = fst (description_loop U svc t log' 0 [])" by blast
    then show ?thesis by (simp add: description_loop_no_fallback)
  qed
  moreover have "\<forall>n. svc n t = Some FALLBACK \<longrightarrow> generate_game_description U svc n t = FALLBACK"
    by (simp add: generate_game_description_def fallback_fixed)
  ultimately show ?thesis by blast
qed

theorem stored_descriptions_not_fallback_witness:
  "fst (generate_descriptions_for_all_games plain_case fallback_service catalog3 (Some partial_table)) ''A''
       = Some [ustr ''Two lines chasing one ball'']
   \<and> partial_table ''A'' = Some [ustr ''Two lines chasing one ball'']
   \<and> fst (generate_descriptions_for_all_games plain_case fallback_service catalog3 (Some partial_table)) ''B''
       = Some [ustr ''Two lines chasing one ball'', ustr ''Two lines chasing one ball'']
   \<and> partial_table ''B'' = None
   \<and> FALLBACK \<notin> set [ustr ''Two lines chasing one ball'', ustr ''Two lines chasing one ball'']
   \<and> fallback_service 2 ''B'' = Some FALLBACK
   \<and> generate_game_description plain_case fallback_service 2 ''B'' = FALLBACK"
proof -
  have h1: "fst (generate_descriptions_for_all_games plain_case fallback_service catalog3 (Some partial_table)) ''B''
       = Some [ustr ''Two lines chasing one ball'', ustr ''Two lines chasing one ball'']"
    by code_simp
  have h2: "\<forall>ds0. (case Some partial_table of None \<Rightarrow> Map.empty | Some table \<Rightarrow> table) ''B'' = Some ds0
               \<longrightarrow> FALLBACK \<notin> set ds0"
    by (simp add: partial_table_def)
  have h3: "fst (generate_descriptions_for_all_games plain_case fallback_service catalog3 (Some partial_table)) ''A''
       = Some [ustr ''Two lines chasing one ball'']"
    by code_simp
  have h4: "fallback_service 2 ''B'' = Some FALLBACK" by (simp add: fallback_service_def)
  have h5: "partial_table ''A'' = Some [ustr ''Two lines chasing one ball'']"
      "partial_table ''B'' = None"
    by (simp_all add: partial_table_def)
  show ?thesis
    using h1 h3 h4 h5 stored_descriptions_not_fallback [OF h1 h2] by simp
qed

section \<open>Properties of the question generator\<close>

lemma ebind_Inr_iff: "(ebind m f = Inr y) = (\<exists>x. m = Inr x \<and> f x = Inr y)"
  by (cases m) (simp_all add: ebind_def)

lemma ebind_Inl_iff: "(ebind m f = Inl e) = (m = Inl e \<or> (\<exists>x. m = Inr x \<and> f x = Inl e))"
  by (cases m) (simp_all add: ebind_def)

lemma randbelow_less: "0 < n \<Longrightarrow> fst (randbelow n rs) < n"
  by (simp add: randbelow_def split: prod.splits)

lemma randint_0_Inr:
  "randint 0 (int n - 1) rs = Inr (i, rs') \<Longrightarrow> 0 < n \<and> 0 \<le> i \<and> nat i < n \<and> i = int (fst (randbelow n rs))"
  by (auto simp: randint_def randbelow_def split: if_splits prod.splits)

lemma randint_0_Inl:
  "randint 0 (int n - 1) rs = Inl e \<Longrightarrow> n = 0 \<and> e = ValueError"
  by (auto simp: randint_def randbelow_def split: if_splits prod.splits)

lemma randint_0_empty: "randint 0 (int 0 - 1) rs = Inl ValueError"
  by (simp add: randint_def)

lemma pop_at_nat: "k < length xs \<Longrightarrow> pop_at xs (int k) = Inr (xs ! k, take k xs @ drop (Suc k) xs)"
  by (simp add: pop_at_def norm_index_def)

lemma choice_Inr: "choice xs rs = Inr (x, rs') \<Longrightarrow> x \<in> set xs"
  by (auto simp: choice_def randbelow_def split: if_splits prod.splits)

lemma choice_Inl: "choice xs rs = Inl e \<Longrightarrow> xs = [] \<and> e = IndexError"
  by (auto simp: choice_def randbelow_def split: if_splits prod.splits)

lemma shuffle_steps_mset:
  "k < length x \<Longrightarrow> mset (fst (shuffle_steps k x rs)) = mset x"
proof (induction k arbitrary: x rs)
  case 0
  then show ?case by simp
next
  case (Suc k)
  obtain j rs' where j: "randbelow (Suc k + 1) rs = (j, rs')" by (cases "randbelow (Suc k + 1) rs")
  then have "j < Suc k + 1" using randbelow_less [of "Suc k + 1" rs] by simp
  then have jl: "j < length x" using Suc.prems by simp
  let ?x = "x[Suc k := x ! j, j := x ! Suc k]"
  have "mset ?x = mset x" using jl Suc.prems by (simp add: mset_swap)
  moreover have "mset (fst (shuffle_steps k ?x rs')) = mset ?x"
    using Suc.prems by (intro Suc.IH) simp
  ultimately show ?case using j by simp
qed

lemma shuffle_mset: "mset (fst (shuffle x rs)) = mset x"
proof (cases x)
  case Nil
  then show ?thesis by (simp add: shuffle_def)
next
  case (Cons a list)
  then show ?thesis unfolding shuffle_def by (intro shuffle_steps_mset) simp
qed

lemma same_genre_pick_Inr:
  assumes "same_genre_pick pool gg rs = Inr (s, rs')"
  shows "\<exists>g\<in>set pool. s = game g \<and>
           (filter (\<lambda>g. genre g = gg) pool \<noteq> [] \<longrightarrow> genre g = gg)"
  using assms
  by (auto simp: same_genre_pick_def ebind_Inr_iff Let_def split: if_splits dest!: choice_Inr)

lemma same_genre_pick_Inl:
  assumes "same_genre_pick pool gg rs = Inl e"
  shows "pool = [] \<and> e = IndexError"
proof -
  from assms have "filter (\<lambda>g. genre g = gg) pool = []" "filter (\<lambda>g. genre g \<noteq> gg) pool = []"
    "e = IndexError"
    by (auto simp: same_genre_pick_def ebind_Inl_iff Let_def split: if_splits dest!: choice_Inl)
  then show ?thesis
    by (cases pool) (auto split: if_splits)
qed

lemma same_genre_pick_empty: "same_genre_pick [] gg rs = Inl IndexError"
  by (simp add: same_genre_pick_def choice_def ebind_def)

lemma diff_genre_picks_unfold:
  "diff_genre_picks pool gg rs =
     ebind (randint 0 (int (length (filter (\<lambda>g. genre g \<noteq> gg) pool)) - 1) rs) (\<lambda>(idx1, rs).
     ebind (pop_at (filter (\<lambda>g. genre g \<noteq> gg) pool) idx1) (\<lambda>(first_choice, diff).
     ebind (randint 0 (int (length diff) - 1) rs) (\<lambda>(idx2, rs).
     ebind (pop_at diff idx2) (\<lambda>(second_choice, diff').
       Inr ([game first_choice, game second_choice], rs)))))"
  by (simp add: diff_genre_picks_def Let_def)

lemma two_pops:
  fixes diff :: "catalog_game list"
  shows "ebind (randint 0 (int (length diff) - 1) rs) (\<lambda>(idx1, rs).
     ebind (pop_at diff idx1) (\<lambda>(first_choice, diff).
     ebind (randint 0 (int (length diff) - 1) rs) (\<lambda>(idx2, rs).
     ebind (pop_at diff idx2) (\<lambda>(second_choice, diff').
       Inr ([game first_choice, game second_choice], rs))))) = r \<Longrightarrow>
   (length diff < 2 \<and> r = Inl ValueError) \<or>
   (\<exists>i1 second rs'. i1 < length diff \<and> second \<in> set (take i1 diff @ drop (Suc i1) diff)
       \<and> r = Inr ([game (diff ! i1), game second], rs'))"
proof -
  assume r: "ebind (randint 0 (int (length diff) - 1) rs) (\<lambda>(idx1, rs).
     ebind (pop_at diff idx1) (\<lambda>(first_choice, diff).
     ebind (randint 0 (int (length diff) - 1) rs) (\<lambda>(idx2, rs).
     ebind (pop_at diff idx2) (\<lambda>(second_choice, diff').
       Inr ([game first_choice, game second_choice], rs))))) = r"
  show ?thesis
  proof (cases "randint 0 (int (length diff) - 1) rs")
    case (Inl e)
    then show ?thesis using r randint_0_Inl [OF Inl] by (simp add: ebind_def)
  next
    case (Inr p)
    obtain j1 rs1 where p: "p = (j1, rs1)" by (cases p)
    define i1 where "i1 = nat j1"
    from randint_0_Inr [OF Inr [unfolded p]] have i1: "i1 < length diff" "j1 = int i1"
      by (auto simp: i1_def)
    define rest where "rest = take i1 diff @ drop (Suc i1) diff"
    have pop1: "pop_at diff j1 = Inr (diff ! i1, rest)"
      using i1 by (simp add: pop_at_nat rest_def)
    have lrest: "Suc (length rest) = length diff"
      using i1 by (auto simp: rest_def)
    show ?thesis
    proof (cases "randint 0 (int (length rest) - 1) rs1")
      case (Inl e)
      then show ?thesis using r Inr p pop1 randint_0_Inl [OF Inl] lrest
        by (auto simp: ebind_def)
    next
      case r2: (Inr p2)
      obtain j2 rs2 where p2: "p2 = (j2, rs2)" by (cases p2)
      define i2 where "i2 = nat j2"
      from randint_0_Inr [OF r2 [unfolded p2]] have i2: "i2 < length rest" "j2 = int i2"
        by (auto simp: i2_def)
      have pop2: "pop_at rest j2 = Inr (rest ! i2, take i2 rest @ drop (Suc i2) rest)"
        using i2 by (simp add: pop_at_nat)
      have "r = Inr ([game (diff ! i1), game (rest ! i2)], rs2)"
        using r Inr p pop1 r2 p2 pop2 by (simp add: ebind_def)
      moreover have "rest ! i2 \<in> set rest" using i2(1) by (rule nth_mem)
      ultimately show ?thesis using i1(1) unfolding rest_def by blast
    qed
  qed
qed

lemma diff_genre_picks_cases:
  "(length (filter (\<lambda>g. genre g \<noteq> gg) pool) < 2 \<and> diff_genre_picks pool gg rs = Inl ValueError) \<or>
   (\<exists>i1 second rs'. i1 < length (filter (\<lambda>g. genre g \<noteq> gg) pool)
       \<and> second \<in> set (take i1 (filter (\<lambda>g. genre g \<noteq> gg) pool)
                          @ drop (Suc i1) (filter (\<lambda>g. genre g \<noteq> gg) pool))
       \<and> diff_genre_picks pool gg rs
           = Inr ([game (filter (\<lambda>g. genre g \<noteq> gg) pool ! i1), game second], rs'))"
  using two_pops [OF diff_genre_picks_unfold [symmetric]] .

lemma diff_genre_picks_few:
  assumes "length (filter (\<lambda>g. genre g \<noteq> gg) pool) < 2"
  shows "diff_genre_picks pool gg rs = Inl ValueError"
proof -
  let ?diff = "filter (\<lambda>g. genre g \<noteq> gg) pool"
  from assms consider "?diff = []" | x where "?diff = [x]"
    by (cases ?diff) (auto simp: length_Suc_conv)
  then show ?thesis
  proof cases
    case 1
    then show ?thesis by (simp add: diff_genre_picks_def randint_def ebind_def)
  next
    case 2
    then show ?thesis
      by (simp add: diff_genre_picks_def randint_def randbelow_def ebind_def pop_at_def
          norm_index_def split: prod.splits)
  qed
qed

lemma question_round_empty: "question_round d [] rs = Inl ValueError"
  by (simp add: question_round_def randint_def ebind_def)

lemma question_round_unfold:
  assumes "ag \<noteq> []"
  shows "question_round d ag rs =
         round_tail d (ag ! fst (randbelow (length ag) rs))
           (take (fst (randbelow (length ag) rs)) ag @ drop (Suc (fst (randbelow (length ag) rs))) ag)
           (snd (randbelow (length ag) rs))"
proof -
  define idx where "idx = fst (randbelow (length ag) rs)"
  define rs1 where "rs1 = snd (randbelow (length ag) rs)"
  have "idx < length ag" using assms by (simp add: idx_def randbelow_less)
  then have pop: "pop_at ag (int idx) = Inr (ag ! idx, take idx ag @ drop (Suc idx) ag)"
    by (rule pop_at_nat)
  have "randint 0 (int (length ag) - 1) rs = Inr (int idx, rs1)"
    using assms by (auto simp: randint_def idx_def rs1_def split: prod.splits)
  then show ?thesis
    unfolding idx_def [symmetric] rs1_def [symmetric]
    using pop by (simp add: question_round_def round_tail_def ebind_def Let_def)
qed


lemma round_tail_Inr:
  assumes "round_tail d g pool rs = Inr (q, ag', rs')"
  shows "\<exists>same i1 second ds.
           ag' = pool \<and> correct_answer q = game g
         \<and> same \<in> set pool
         \<and> (filter (\<lambda>x. genre x = genre g) pool \<noteq> [] \<longrightarrow> genre same = genre g)
         \<and> i1 < length (filter (\<lambda>x. genre x \<noteq> genre g) pool)
         \<and> second \<in> set (take i1 (filter (\<lambda>x. genre x \<noteq> genre g) pool)
                            @ drop (Suc i1) (filter (\<lambda>x. genre x \<noteq> genre g) pool))
         \<and> d (game g) = Some ds \<and> description q \<in> set ds
         \<and> mset (choices q) = mset [game g, game same,
               game (filter (\<lambda>x. genre x \<noteq> genre g) pool ! i1), game second]"
proof -
  from assms obtain sc rs1 where sc: "same_genre_pick pool (genre g) rs = Inr (sc, rs1)"
    by (auto simp: round_tail_def ebind_Inr_iff)
  from same_genre_pick_Inr [OF sc] obtain same where same: "same \<in> set pool" "sc = game same"
    "filter (\<lambda>x. genre x = genre g) pool \<noteq> [] \<longrightarrow> genre same = genre g"
    by blast
  from assms sc obtain dc rs2 where dc: "diff_genre_picks pool (genre g) rs1 = Inr (dc, rs2)"
    by (auto simp: round_tail_def ebind_Inr_iff)
  let ?diff = "filter (\<lambda>x. genre x \<noteq> genre g) pool"
  from diff_genre_picks_cases [of "genre g" pool rs1] dc obtain i1 second where
    i1: "i1 < length ?diff" "second \<in> set (take i1 ?diff @ drop (Suc i1) ?diff)"
      "dc = [game (?diff ! i1), game second]"
    by auto
  from assms sc dc obtain ds where ds: "d (game g) = Some ds"
    by (cases "d (game g)") (auto simp: round_tail_def ebind_def)
  from assms sc dc ds obtain de rs3 where de: "choice ds rs2 = Inr (de, rs3)"
    by (cases "choice ds rs2") (auto simp: round_tail_def ebind_def)
  obtain all rs4 where sh: "shuffle ([game g, sc] @ dc) rs3 = (all, rs4)"
    by (cases "shuffle ([game g, sc] @ dc) rs3")
  from assms sc dc ds de sh have q: "q = \<lparr>description = de, correct_answer = game g, choices = all\<rparr>"
    "ag' = pool"
    by (simp_all add: round_tail_def ebind_def)
  have "mset (choices q) = mset [game g, game same, game (?diff ! i1), game second]"
    using shuffle_mset [of "[game g, sc] @ dc" rs3] sh by (simp add: q same(2) i1(3))
  moreover have "description q \<in> set ds" using choice_Inr [OF de] by (simp add: q)
  ultimately show ?thesis using same i1 ds(1) q by auto
qed

lemma round_tail_Inl:
  assumes "round_tail d g pool rs = Inl e"
  shows "e = IndexError \<or> e = ValueError \<or> e = KeyError"
proof (cases "same_genre_pick pool (genre g) rs")
  case (Inl e')
  then show ?thesis using assms same_genre_pick_Inl [OF Inl] by (simp add: round_tail_def ebind_def)
next
  case (Inr p)
  obtain sc rs1 where p: "p = (sc, rs1)" by (cases p)
  show ?thesis
  proof (cases "diff_genre_picks pool (genre g) rs1")
    case (Inl e')
    then have "e' = ValueError" using diff_genre_picks_cases [of "genre g" pool rs1] by auto
    then show ?thesis using assms Inr p Inl by (simp add: round_tail_def ebind_def)
  next
    case dc: (Inr p2)
    obtain dc rs2 where p2: "p2 = (dc, rs2)" by (cases p2)
    show ?thesis
    proof (cases "d (game g)")
      case None
      then show ?thesis using assms Inr p dc p2 by (simp add: round_tail_def ebind_def)
    next
      case (Some ds)
      show ?thesis
      proof (cases "choice ds rs2")
        case (Inl e')
        then show ?thesis using assms Inr p dc p2 Some choice_Inl [OF Inl]
          by (simp add: round_tail_def ebind_def)
      next
        case de: (Inr p3)
        obtain de rs3 where p3: "p3 = (de, rs3)" by (cases p3)
        obtain all rs4 where sh: "shuffle ([game g, sc] @ dc) rs3 = (all, rs4)"
          by (cases "shuffle ([game g, sc] @ dc) rs3")
        show ?thesis using assms Inr p dc p2 Some de p3 sh
          by (simp add: round_tail_def ebind_def)
      qed
    qed
  qed
qed

lemma question_round_Inl:
  assumes "question_round d ag rs = Inl e"
  shows "e = IndexError \<or> e = ValueError \<or> e = KeyError"
proof (cases "ag = []")
  case True
  then show ?thesis using assms by (simp add: question_round_empty)
next
  case False
  then show ?thesis using assms round_tail_Inl by (simp add: question_round_unfold)
qed

lemma question_loop_Inl:
  "question_loop n d ag qs rs = Inl e \<Longrightarrow> e = IndexError \<or> e = ValueError \<or> e = KeyError"
proof (induction n arbitrary: ag qs rs)
  case 0
  then show ?case by simp
next
  case (Suc n)
  show ?case
  proof (cases "question_round d ag rs")
    case (Inl e')
    then show ?thesis using Suc.prems question_round_Inl [OF Inl] by (simp add: ebind_def)
  next
    case (Inr p)
    obtain q ag' rs' where "p = (q, ag', rs')" by (cases p)
    then show ?thesis using Suc.prems Inr Suc.IH by (simp add: ebind_def)
  qed
qed

lemma question_round_few:
  assumes "length (diff_genre_pool ag (fst (randbelow (length ag) rs))) < 2"
  shows "question_round d ag rs = Inl (if length ag = 1 then IndexError else ValueError)"
proof (cases "ag = []")
  case True
  then show ?thesis by (simp add: question_round_empty)
next
  case False
  define idx where "idx = fst (randbelow (length ag) rs)"
  define pool where "pool = take idx ag @ drop (Suc idx) ag"
  define rs1 where "rs1 = snd (randbelow (length ag) rs)"
  have idx: "idx < length ag" using False by (simp add: idx_def randbelow_less)
  have unf: "question_round d ag rs = round_tail d (ag ! idx) pool rs1"
    using False by (simp add: question_round_unfold idx_def pool_def rs1_def)
  have few: "length (filter (\<lambda>g. genre g \<noteq> genre (ag ! idx)) pool) < 2"
    using assms by (simp add: diff_genre_pool_def idx_def pool_def)
  have lp: "Suc (length pool) = length ag" using idx by (auto simp: pool_def)
  show ?thesis
  proof (cases "length ag = 1")
    case True
    then have "pool = []" using lp by simp
    then show ?thesis using True unf by (simp add: round_tail_def same_genre_pick_empty ebind_def)
  next
    case one: False
    then have ne: "pool \<noteq> []" using lp False by (cases pool) auto
    obtain sc rs2 where "same_genre_pick pool (genre (ag ! idx)) rs1 = Inr (sc, rs2)"
      using ne same_genre_pick_Inl [of pool "genre (ag ! idx)" rs1]
      by (cases "same_genre_pick pool (genre (ag ! idx)) rs1") auto
    then show ?thesis using one unf diff_genre_picks_few [OF few]
      by (simp add: round_tail_def ebind_def)
  qed
qed


text \<open>
  Claim C2, as stated, fails: with three games of which one has another genre than the
  first, a single different-genre game is left for the two decoys, and
  \<open>create_questions\<close> raises \<open>ValueError\<close>, not \<open>InsufficientCatalogError\<close>.
\<close>

theorem create_questions_insufficient_catalog_counterexample:
  "length (diff_genre_pool catalog3 (fst (randbelow (length catalog3) []))) < 2
   \<and> create_questions one_description catalog3 [] = Inl ValueError
   \<and> create_questions one_description catalog3 [] \<noteq> Inl InsufficientCatalogError"
  by code_simp

text \<open>
  Claim C2, amended. When fewer than two games of a genre different from the correct
  answer's remain in the pool, the round, and with it \<open>create_questions\<close>, fails with
  the exception of the random module: \<open>ValueError\<close> of \<open>randint\<close> on an empty range,
  or \<open>IndexError\<close> of \<open>choice\<close> on an empty list when the pool held the correct answer
  only. \<open>create_questions\<close> never signals \<open>InsufficientCatalogError\<close>.
\<close>

theorem question_round_too_few_diff_genre:
  "(length (diff_genre_pool available_games (fst (randbelow (length available_games) rs))) < 2 \<longrightarrow>
      question_round descriptions available_games rs
        = Inl (if length available_games = 1 then IndexError else ValueError)
    \<and> question_loop (Suc n) descriptions available_games questions rs
        = Inl (if length available_games = 1 then IndexError else ValueError))
   \<and> create_questions descriptions games rs0 \<noteq> Inl InsufficientCatalogError"
proof -
  have "create_questions descriptions games rs0 \<noteq> Inl InsufficientCatalogError"
    using question_loop_Inl [of 5 descriptions games "[]" rs0 InsufficientCatalogError]
    by (auto simp: create_questions_def)
  then show ?thesis by (simp add: question_round_few ebind_def)
qed

theorem question_round_too_few_diff_genre_witness:
  "length (diff_genre_pool catalog3 (fst (randbelow (length catalog3) []))) < 2
   \<and> question_round one_description catalog3 [] = Inl ValueError
   \<and> question_loop (Suc 4) one_description catalog3 [] [] = Inl ValueError"
proof -
  have h: "length (diff_genre_pool catalog3 (fst (randbelow (length catalog3) []))) < 2"
    by code_simp
  have l: "length catalog3 \<noteq> 1" by code_simp
  show ?thesis
    using h l question_round_too_few_diff_genre [of catalog3 "[]" one_description 4 "[]"]
    by simp
qed

lemma distinct_remove_nth:
  assumes "distinct (map f xs)" "idx < length xs"
  shows "distinct (map f (take idx xs @ drop (Suc idx) xs))"
    and "f (xs ! idx) \<notin> f ` set (take idx xs @ drop (Suc idx) xs)"
proof -
  have "map f xs = map f (take idx xs) @ f (xs ! idx) # map f (drop (Suc idx) xs)"
    using assms(2) by (metis id_take_nth_drop list.simps(9) map_append)
  with assms(1) have d: "distinct (map f (take idx xs) @ f (xs ! idx) # map f (drop (Suc idx) xs))"
    by simp
  from d show "distinct (map f (take idx xs @ drop (Suc idx) xs))" by auto
  from d show "f (xs ! idx) \<notin> f ` set (take idx xs @ drop (Suc idx) xs)" by auto
qed

lemma question_round_pool:
  assumes "question_round d ag rs = Inr (q, ag', rs')"
  shows "\<exists>idx<length ag. ag' = take idx ag @ drop (Suc idx) ag \<and> correct_answer q = game (ag ! idx)"
proof -
  have ne: "ag \<noteq> []" using assms by (auto simp: question_round_empty)
  define idx where "idx = fst (randbelow (length ag) rs)"
  have "idx < length ag" using ne by (simp add: idx_def randbelow_less)
  moreover from assms have "round_tail d (ag ! idx) (take idx ag @ drop (Suc idx) ag)
      (snd (randbelow (length ag) rs)) = Inr (q, ag', rs')"
    using ne by (simp add: question_round_unfold idx_def)
  from round_tail_Inr [OF this]
  have "ag' = take idx ag @ drop (Suc idx) ag \<and> correct_answer q = game (ag ! idx)" by blast
  ultimately show ?thesis by blast
qed

lemma question_loop_distinct:
  assumes "question_loop n d ag qs rs = Inr out"
    and "distinct (map game ag)" and "distinct (map correct_answer qs)"
    and "correct_answer ` set qs \<inter> game ` set ag = {}"
  shows "distinct (map correct_answer out) \<and> length out = length qs + n"
  using assms
proof (induction n arbitrary: ag qs rs)
  case 0
  then show ?case by simp
next
  case (Suc n)
  from Suc.prems(1) obtain q ag' rs' where r: "question_round d ag rs = Inr (q, ag', rs')"
    and l: "question_loop n d ag' (qs @ [q]) rs' = Inr out"
    by (auto simp: ebind_Inr_iff)
  from question_round_pool [OF r] obtain idx where idx: "idx < length ag"
    "ag' = take idx ag @ drop (Suc idx) ag" "correct_answer q = game (ag ! idx)"
    by blast
  have d1: "distinct (map game ag')" and notin: "game (ag ! idx) \<notin> game ` set ag'"
    using distinct_remove_nth [OF Suc.prems(2) idx(1)] idx(2) by simp_all
  have sub: "set ag' \<subseteq> set ag"
    unfolding idx(2) using set_take_subset [of idx ag] set_drop_subset [of "Suc idx" ag] by auto
  have mem: "game (ag ! idx) \<in> game ` set ag" using idx(1) by simp
  have d2: "distinct (map correct_answer (qs @ [q]))"
    using Suc.prems(3,4) mem idx(3) by auto
  have d3: "correct_answer ` set (qs @ [q]) \<inter> game ` set ag' = {}"
    using Suc.prems(4) sub notin idx(3) by auto
  from Suc.IH [OF l d1 d2 d3] show ?case by simp
qed

text \<open>
  Claim C5. When the titles of the catalog are unique, the 5 questions that
  \<open>create_questions\<close> returns have pairwise distinct correct answers.
\<close>

theorem create_questions_distinct_answers:
  assumes "distinct (map game games)"
    and "create_questions descriptions games rs = Inr questions"
  shows "length questions = 5 \<and> distinct (map correct_answer questions)"
  using question_loop_distinct [of 5 descriptions games "[]" rs questions] assms
  by (simp add: create_questions_def)

theorem create_questions_distinct_answers_witness:
  "distinct (map game catalog7)
   \<and> create_questions one_description catalog7 [1, 0, 0, 1] =
       Inr [\<lparr>description = ustr ''d'', correct_answer = ''B'', choices = [''C'', ''A'', ''E'', ''B'']\<rparr>,
            \<lparr>description = ustr ''d'', correct_answer = ''A'', choices = [''C'', ''C'', ''D'', ''A'']\<rparr>,
            \<lparr>description = ustr ''d'', correct_answer = ''C'', choices = [''D'', ''D'', ''E'', ''C'']\<rparr>,
            \<lparr>description = ustr ''d'', correct_answer = ''D'', choices = [''E'', ''F'', ''G'', ''D'']\<rparr>,
            \<lparr>description = ustr ''d'', correct_answer = ''E'', choices = [''F'', ''F'', ''G'', ''E'']\<rparr>]
   \<and> distinct [''B'', ''A'', ''C'', ''D'', ''E'']"
proof -
  have h1: "distinct (map game catalog7)" by code_simp
  have h2: "create_questions one_description catalog7 [1, 0, 0, 1] =
       Inr [\<lparr>description = ustr ''d'', correct_answer = ''B'', choices = [''C'', ''A'', ''E'', ''B'']\<rparr>,
            \<lparr>description = ustr ''d'', correct_answer = ''A'', choices = [''C'', ''C'', ''D'', ''A'']\<rparr>,
            \<lparr>description = ustr ''d'', correct_answer = ''C'', choices = [''D'', ''D'', ''E'', ''C'']\<rparr>,
            \<lparr>description = ustr ''d'', correct_answer = ''D'', choices = [''E'', ''F'', ''G'', ''D'']\<rparr>,
            \<lparr>description = ustr ''d'', correct_answer = ''E'', choices = [''F'', ''F'', ''G'', ''E'']\<rparr>]"
    by code_simp
  show ?thesis using h1 h2 create_questions_distinct_answers [OF h1 h2] by simp
qed

text \<open>
  Claim C1 at a failing input: a catalog of unique titles in which the first game has no
  game of its genre, and draws that are all zero. The same-genre decoy falls back to the
  different-genre game \<open>B\<close>, which is drawn again as the first different-genre decoy: the
  first question has the choice \<open>B\<close> twice (and so have the third and the fifth).
\<close>

theorem create_questions_duplicate_choice:
  "distinct (map game catalog7)
   \<and> create_questions one_description catalog7 [] =
       Inr [\<lparr>description = ustr ''d'', correct_answer = ''A'', choices = [''B'', ''B'', ''C'', ''A'']\<rparr>,
            \<lparr>description = ustr ''d'', correct_answer = ''B'', choices = [''C'', ''D'', ''E'', ''B'']\<rparr>,
            \<lparr>description = ustr ''d'', correct_answer = ''C'', choices = [''D'', ''D'', ''E'', ''C'']\<rparr>,
            \<lparr>description = ustr ''d'', correct_answer = ''D'', choices = [''E'', ''F'', ''G'', ''D'']\<rparr>,
            \<lparr>description = ustr ''d'', correct_answer = ''E'', choices = [''F'', ''F'', ''G'', ''E'']\<rparr>]
   \<and> \<not> distinct [''B'', ''B'', ''C'', ''A'']"
  by code_simp

text \<open>
  What does hold for the choices of a round under unique titles: there are 4 of them, the
  correct answer is one of them exactly once, and they are pairwise distinct when the pool
  has a game of the same genre.
\<close>

lemma question_round_choices:
  assumes r: "question_round d ag rs = Inr (q, ag', rs')" and dist: "distinct (map game ag)"
  shows "length (choices q) = 4"
    and "count (mset (choices q)) (correct_answer q) = 1"
    and "filter (\<lambda>g. genre g = genre (ag ! fst (randbelow (length ag) rs))) ag' \<noteq> []
         \<Longrightarrow> distinct (choices q)"
proof -
  have ne: "ag \<noteq> []" using r by (auto simp: question_round_empty)
  define idx where "idx = fst (randbelow (length ag) rs)"
  define pool where "pool = take idx ag @ drop (Suc idx) ag"
  define g where "g = ag ! idx"
  define diff where "diff = filter (\<lambda>x. genre x \<noteq> genre g) pool"
  have idx: "idx < length ag" using ne by (simp add: idx_def randbelow_less)
  from r have "round_tail d g pool (snd (randbelow (length ag) rs)) = Inr (q, ag', rs')"
    using ne by (simp add: question_round_unfold idx_def pool_def g_def)
  from round_tail_Inr [OF this] obtain same i1 second where
    f: "ag' = pool" "correct_answer q = game g" "same \<in> set pool"
      "filter (\<lambda>x. genre x = genre g) pool \<noteq> [] \<longrightarrow> genre same = genre g"
      "i1 < length diff" "second \<in> set (take i1 diff @ drop (Suc i1) diff)"
      "mset (choices q) = mset [game g, game same, game (diff ! i1), game second]"
    unfolding diff_def by blast
  have dp: "distinct (map game pool)" and notin: "game g \<notin> game ` set pool"
    using distinct_remove_nth [OF dist idx] by (simp_all add: pool_def g_def)
  have first_in: "diff ! i1 \<in> set diff" using f(5) by simp
  have second_in: "second \<in> set diff"
    using f(6) set_take_subset [of i1 diff] set_drop_subset [of "Suc i1" diff] by auto
  have diff_pool: "set diff \<subseteq> set pool" by (auto simp: diff_def)
  have "size (mset (choices q)) = size (mset [game g, game same, game (diff ! i1), game second])"
    by (simp only: f(7))
  then show "length (choices q) = 4" by simp
  have p1: "diff ! i1 \<in> set pool" and p2: "second \<in> set pool"
    using first_in second_in diff_pool by auto
  have n1: "game same \<noteq> game g" using notin f(3) by (metis imageI)
  have n2: "game (diff ! i1) \<noteq> game g" using notin p1 by (metis imageI)
  have n3: "game second \<noteq> game g" using notin p2 by (metis imageI)
  show "count (mset (choices q)) (correct_answer q) = 1"
    using n1 n2 n3 by (simp add: f(2) f(7))
  show "distinct (choices q)" if "filter (\<lambda>g. genre g = genre (ag ! fst (randbelow (length ag) rs))) ag' \<noteq> []"
  proof -
    from that f(1,4) have gs: "genre same = genre g" by (simp add: idx_def [symmetric] g_def)
    have inj: "inj_on game (set pool)" using dp by (simp add: distinct_map)
    have dd: "distinct diff" using dp by (simp add: diff_def distinct_map)
    have "diff ! i1 \<notin> set (take i1 diff @ drop (Suc i1) diff)"
      using distinct_remove_nth(2) [of id diff i1] dd f(5) by simp
    then have ne12: "diff ! i1 \<noteq> second" using f(6) by auto
    have g1: "genre (diff ! i1) \<noteq> genre g" and g2: "genre second \<noteq> genre g"
      using first_in second_in by (auto simp: diff_def)
    have "same \<noteq> diff ! i1" "same \<noteq> second" using gs g1 g2 by auto
    then have m1: "game same \<noteq> game (diff ! i1)" and m2: "game same \<noteq> game second"
      using inj f(3) p1 p2 by (metis inj_onD)+
    have m3: "game (diff ! i1) \<noteq> game second"
      using inj p1 p2 ne12 by (metis inj_onD)
    have "distinct [game g, game same, game (diff ! i1), game second]"
      using n1 n2 n3 m1 m2 m3 by auto
    then show ?thesis by (simp only: mset_eq_imp_distinct_iff [OF f(7)])
  qed
qed

section \<open>Properties of the answer handler\<close>

lemma index_in_range:
  "0 \<le> i \<Longrightarrow> i < int (length xs) \<Longrightarrow> index xs i = Inr (xs ! nat i)"
  by (simp add: index_def norm_index_def)

lemma index_negative:
  "- int (length xs) \<le> i \<Longrightarrow> i < 0 \<Longrightarrow> index xs i = Inr (xs ! nat (int (length xs) + i))"
  by (simp add: index_def norm_index_def)

lemma index_out_of_range:
  "i \<ge> int (length xs) \<or> i < - int (length xs) \<Longrightarrow> index xs i = Inl IndexError"
  by (auto simp: index_def norm_index_def)

lemma post_result:
  assumes "QUESTIONS session = Some qs"
    and "index qs (session_get (CURRENT_QUESTION_IDX session) 0) = Inr q"
    and "index (choices q) choice_idx = Inr chosen"
  shows "\<exists>s' fb. post session choice_idx = Inr (s', fb)
           \<and> (heading fb = ''Correct!'') = (chosen = correct_answer q)
           \<and> SCORE s' = (if chosen = correct_answer q
                          then Some (session_get (SCORE session) 0 + 1) else SCORE session)
           \<and> CURRENT_QUESTION_IDX s' = Some (session_get (CURRENT_QUESTION_IDX session) 0 + 1)"
  using assms by (simp add: post_def ebind_def Let_def)

lemma post_index_error:
  assumes "QUESTIONS session = Some qs"
    and "index qs (session_get (CURRENT_QUESTION_IDX session) 0) = Inr q"
    and "index (choices q) choice_idx = Inl e"
  shows "post session choice_idx = Inl e"
  using assms by (simp add: post_def ebind_def Let_def)

text \<open>
  Claim C10. On a question with 4 choices, a \<open>choice_idx\<close> from -4 to -1 raises nothing:
  the answer is judged against \<open>choices[4 + choice_idx]\<close> and the score counts it; the
  handler raises \<open>IndexError\<close> for \<open>choice_idx \<ge> 4\<close> and for \<open>choice_idx < -4\<close>, and
  for no other \<open>choice_idx\<close>.
\<close>

theorem post_negative_choice_idx:
  assumes "QUESTIONS session = Some qs"
    and "index qs (session_get (CURRENT_QUESTION_IDX session) 0) = Inr q"
    and "length (choices q) = 4"
  shows "(- 4 \<le> choice_idx \<and> choice_idx < 0 \<longrightarrow>
            (\<exists>s' fb. post session choice_idx = Inr (s', fb)
               \<and> (heading fb = ''Correct!'') = (choices q ! nat (4 + choice_idx) = correct_answer q)
               \<and> SCORE s' = (if choices q ! nat (4 + choice_idx) = correct_answer q
                              then Some (session_get (SCORE session) 0 + 1) else SCORE session)))
       \<and> (choice_idx \<ge> 4 \<or> choice_idx < - 4 \<longrightarrow> post session choice_idx = Inl IndexError)
       \<and> ((\<exists>e. post session choice_idx = Inl e) \<longrightarrow> choice_idx \<ge> 4 \<or> choice_idx < - 4)"
proof (intro conjI impI)
  assume neg: "- 4 \<le> choice_idx \<and> choice_idx < 0"
  then have "index (choices q) choice_idx = Inr (choices q ! nat (4 + choice_idx))"
    using index_negative [of "choices q" choice_idx] assms(3) by simp
  from post_result [OF assms(1,2) this]
  show "\<exists>s' fb. post session choice_idx = Inr (s', fb)
               \<and> (heading fb = ''Correct!'') = (choices q ! nat (4 + choice_idx) = correct_answer q)
               \<and> SCORE s' = (if choices q ! nat (4 + choice_idx) = correct_answer q
                              then Some (session_get (SCORE session) 0 + 1) else SCORE session)"
    by blast
next
  assume "choice_idx \<ge> 4 \<or> choice_idx < - 4"
  then have "index (choices q) choice_idx = Inl IndexError"
    using index_out_of_range [of "choices q" choice_idx] assms(3) by simp
  then show "post session choice_idx = Inl IndexError"
    by (rule post_index_error [OF assms(1,2)])
next
  assume err: "\<exists>e. post session choice_idx = Inl e"
  show "choice_idx \<ge> 4 \<or> choice_idx < - 4"
  proof (rule ccontr)
    assume "\<not> (choice_idx \<ge> 4 \<or> choice_idx < - 4)"
    then have "\<exists>c. index (choices q) choice_idx = Inr c"
      using assms(3) by (simp add: index_def norm_index_def)
    then obtain c where "index (choices q) choice_idx = Inr c" by blast
    from post_result [OF assms(1,2) this] err show False by auto
  qed
qed

theorem post_negative_choice_idx_witness:
  "QUESTIONS example_session = Some [\<lparr>description = ustr ''d'', correct_answer = ''A'',
                         choices = [''B'', ''C'', ''D'', ''A'']\<rparr>]
   \<and> post example_session (- 1) =
       Inr (example_session\<lparr>CURRENT_QUESTION_IDX := Some 1, SCORE := Some 1\<rparr>,
            \<lparr>heading = ''Correct!'', message = [CHR 0x27] @ ''A'' @ [CHR 0x27] @ '' is the right answer!'',
             next_button = SeeResultsButton\<rparr>)
   \<and> post example_session 4 = Inl IndexError
   \<and> post example_session (- 5) = Inl IndexError"
proof -
  let ?q = "\<lparr>description = ustr ''d'', correct_answer = ''A'', choices = [''B'', ''C'', ''D'', ''A'']\<rparr>"
  have h1: "QUESTIONS example_session = Some [?q]" by (simp add: example_session_def)
  have h2: "index [?q] (session_get (CURRENT_QUESTION_IDX example_session) 0) = Inr ?q"
    by (simp add: example_session_def session_get_def index_def norm_index_def)
  have h3: "length (choices ?q) = 4" by simp
  have v: "post example_session (- 1) =
       Inr (example_session\<lparr>CURRENT_QUESTION_IDX := Some 1, SCORE := Some 1\<rparr>,
            \<lparr>heading = ''Correct!'', message = [CHR 0x27] @ ''A'' @ [CHR 0x27] @ '' is the right answer!'',
             next_button = SeeResultsButton\<rparr>)"
    by (simp add: post_def example_session_def session_get_def index_def norm_index_def ebind_def)
  show ?thesis
    using h1 v post_negative_choice_idx [OF h1 h2 h3, of "- 1"]
      post_negative_choice_idx [OF h1 h2 h3, of 4]
      post_negative_choice_idx [OF h1 h2 h3, of "- 5"]
    by simp
qed

end
